theory Spec2Isabelle
  imports Main "HOL-Library.Sublist" "HOL-Library.Multiset"
begin

section \<open>Analyzer of Apache access logs: embedding of \<^verbatim>\<open>Log_Analyzer.py\<close>\<close>

text \<open>
  A line of the log is a Python \<^verbatim>\<open>str\<close>. It is modelled as a \<^typ>\<open>string\<close>, each
  \<^typ>\<open>char\<close> standing for one code point in the range 0 to 255 (ASCII and Latin-1), which
  covers what an access log holds. The character classes below are the ones Python's
  \<^verbatim>\<open>re\<close> and \<^verbatim>\<open>str\<close> use on that range.
\<close>

subsection \<open>Errors\<close>

text \<open>
  The exceptions the functions can raise: \<^verbatim>\<open>None.group\<close> raises AttributeError when a
  regular expression does not match, \<^verbatim>\<open>datetime.strptime\<close> raises ValueError, and
  \<^verbatim>\<open>open\<close> raises FileNotFoundError.
\<close>

datatype error = AttributeError | ValueError | FileNotFoundError

subsection \<open>Characters\<close>

definition code :: "char \<Rightarrow> nat" where
  "code c = of_char c"

definition is_digit :: "char \<Rightarrow> bool" where
  \<comment> \<open>\<^verbatim>\<open>[0-9]\<close>, and \<^verbatim>\<open>\d\<close> on code points below 256\<close>
  "is_digit c = (48 \<le> code c \<and> code c \<le> 57)"

definition is_upper :: "char \<Rightarrow> bool" where
  \<comment> \<open>the code points below 256 that \<^verbatim>\<open>str.lower\<close> changes: A-Z and the Latin-1 capitals\<close>
  "is_upper c = ((65 \<le> code c \<and> code c \<le> 90) \<or> (192 \<le> code c \<and> code c \<le> 214) \<or>
                 (216 \<le> code c \<and> code c \<le> 222))"

definition lower_char :: "char \<Rightarrow> char" where
  "lower_char c = (if is_upper c then char_of (code c + 32) else c)"

definition lower :: "string \<Rightarrow> string" where
  \<comment> \<open>\<^verbatim>\<open>str.lower()\<close>\<close>
  "lower s = map lower_char s"

definition is_word :: "char \<Rightarrow> bool" where
  \<comment> \<open>\<^verbatim>\<open>\w\<close> of a \<^verbatim>\<open>str\<close> pattern: alphanumeric code points and the underscore\<close>
  "is_word c = (let n = code c in
     (48 \<le> n \<and> n \<le> 57) \<or> (65 \<le> n \<and> n \<le> 90) \<or> n = 95 \<or> (97 \<le> n \<and> n \<le> 122) \<or>
     n = 170 \<or> n = 178 \<or> n = 179 \<or> n = 181 \<or> n = 185 \<or> n = 186 \<or> (188 \<le> n \<and> n \<le> 190) \<or>
     (192 \<le> n \<and> n \<le> 214) \<or> (216 \<le> n \<and> n \<le> 246) \<or> (248 \<le> n \<and> n \<le> 255))"

definition is_space :: "char \<Rightarrow> bool" where
  \<comment> \<open>\<^verbatim>\<open>\s\<close> of a \<^verbatim>\<open>str\<close> pattern\<close>
  "is_space c = (let n = code c in (9 \<le> n \<and> n \<le> 13) \<or> (28 \<le> n \<and> n \<le> 32) \<or> n = 133 \<or> n = 160)"

definition not_newline :: "char \<Rightarrow> bool" where
  \<comment> \<open>the dot of a pattern compiled without DOTALL\<close>
  "not_newline c = (c \<noteq> CHR 0x0A)"

subsection \<open>String operations of Python\<close>

text \<open>
  \<^verbatim>\<open>s.split(sep)\<close> with a separator: the string is scanned from the left, each occurrence
  of the separator closes the current piece and the scan goes on after it. The result is
  never empty. (An empty separator raises in Python; the source passes a constant one.)
\<close>

function split_from :: "string \<Rightarrow> string \<Rightarrow> string \<Rightarrow> string list" where
  "split_from sep cur [] = [cur]"
| "split_from sep cur (c # cs) =
     (if sep \<noteq> [] \<and> prefix sep (c # cs)
      then cur # split_from sep [] (drop (length sep) (c # cs))
      else split_from sep (cur @ [c]) cs)"
  by pat_completeness auto
termination
  by (relation "measure (\<lambda>(sep, cur, s). length s)") auto

definition split_str :: "string \<Rightarrow> string \<Rightarrow> string list" where
  "split_str sep s = split_from sep [] s"

definition strip_chars :: "string \<Rightarrow> string \<Rightarrow> string" where
  \<comment> \<open>\<^verbatim>\<open>s.strip(chars)\<close>: drops the characters of \<open>chars\<close> from both ends\<close>
  "strip_chars chars s =
     rev (dropWhile (\<lambda>c. c \<in> set chars) (rev (dropWhile (\<lambda>c. c \<in> set chars) s)))"

text \<open>\<^verbatim>\<open>re.compile(p).search(s)\<close> for a pattern \<open>p\<close> without metacharacters, as a truth value.\<close>

fun search_literal :: "string \<Rightarrow> string \<Rightarrow> bool" where
  "search_literal p [] = (p = [])"
| "search_literal p (c # cs) = (prefix p (c # cs) \<or> search_literal p cs)"

subsection \<open>The user agent and the bot test\<close>

definition get_user_agent :: "string \<Rightarrow> string option" where
  \<comment> \<open>a Python function that ends without \<^verbatim>\<open>return\<close> gives None\<close>
  \<open>get_user_agent line =
     (let user_to_seek = strip_chars ''" \<newline>'' (last (split_str ''" '' line))
      in if length user_to_seek > 2 then Some user_to_seek else None)\<close>

text \<open>
  For comparison with \<open>get_user_agent\<close>, the reading of the specification: the user agent
  is the content between the final pair of double quotes of the line (None when the line
  has fewer than two double quotes).
\<close>

definition spec_final_quoted :: "string \<Rightarrow> string option" where
  "spec_final_quoted line =
     (case dropWhile (\<lambda>c. c \<noteq> CHR 0x22) (rev line) of
        [] \<Rightarrow> None
      | q # r \<Rightarrow> if CHR 0x22 \<in> set r then Some (rev (takeWhile (\<lambda>c. c \<noteq> CHR 0x22) r)) else None)"

fun is_bot :: "string option \<Rightarrow> bool" where
  \<comment> \<open>the argument is None or a string; None and the empty string are falsy\<close>
  "is_bot None = False"
| "is_bot (Some line) = (if line \<noteq> [] then search_literal ''bot'' (lower line) else False)"

subsection \<open>Regular expressions, matched by backtracking\<close>

text \<open>
  A pattern applied at the start of a string gives the list of ways it can match there,
  each a pair of the text consumed and the text left, in the order in which Python's
  backtracking matcher tries them. The match Python reports is the first of the list.
\<close>

type_synonym matcher = "string \<Rightarrow> (string \<times> string) list"

definition re_class :: "(char \<Rightarrow> bool) \<Rightarrow> matcher" where
  "re_class P s = (case s of [] \<Rightarrow> [] | c # cs \<Rightarrow> if P c then [([c], cs)] else [])"

definition re_char :: "char \<Rightarrow> matcher" where
  "re_char c = re_class (\<lambda>x. x = c)"

definition re_range :: "char \<Rightarrow> char \<Rightarrow> matcher" where
  "re_range lo hi = re_class (\<lambda>x. code lo \<le> code x \<and> code x \<le> code hi)"

definition re_eps :: matcher where
  "re_eps s = [([], s)]"

definition re_seq :: "matcher \<Rightarrow> matcher \<Rightarrow> matcher" where
  "re_seq a b s = [(x @ y, r'). (x, r) \<leftarrow> a s, (y, r') \<leftarrow> b r]"

definition re_seqs :: "matcher list \<Rightarrow> matcher" where
  "re_seqs ms = foldr re_seq ms re_eps"

definition re_alts :: "matcher list \<Rightarrow> matcher" where
  \<comment> \<open>\<^verbatim>\<open>a|b|c\<close>: the alternatives from left to right\<close>
  "re_alts ms s = concat (map (\<lambda>m. m s) ms)"

definition re_opt :: "matcher \<Rightarrow> matcher" where
  \<comment> \<open>greedy \<^verbatim>\<open>a?\<close>: with \<open>a\<close> first, without it second\<close>
  "re_opt a s = a s @ [([], s)]"

text \<open>
  Greedy \<^verbatim>\<open>a+\<close>: after one \<open>a\<close>, one more round is tried before stopping. A round that
  consumes nothing is not repeated.
\<close>

function re_plus :: "matcher \<Rightarrow> matcher" where
  "re_plus a s =
     [res. (x, r) \<leftarrow> a s,
           res \<leftarrow> (if length r < length s then [(x @ y, r'). (y, r') \<leftarrow> re_plus a r] else [])
                  @ [(x, r)]]"
  by pat_completeness auto
termination
  by (relation "measure (\<lambda>(a, s). length s)") auto

declare re_plus.simps [simp del]

fun re_upto :: "nat \<Rightarrow> matcher \<Rightarrow> matcher" where
  \<comment> \<open>greedy \<^verbatim>\<open>a{0,n}\<close>\<close>
  "re_upto 0 a = re_eps"
| "re_upto (Suc n) a = re_opt (re_seq a (re_upto n a))"

definition re_lit_icase :: "string \<Rightarrow> matcher" where
  \<comment> \<open>a literal under IGNORECASE\<close>
  "re_lit_icase p = re_seqs (map (\<lambda>c. re_class (\<lambda>x. lower_char x = lower_char c)) p)"

definition word_boundary :: "string \<Rightarrow> string \<Rightarrow> bool" where
  \<comment> \<open>\<^verbatim>\<open>\b\<close> between the text before the position and the text after it\<close>
  "word_boundary done rest =
     ((done \<noteq> [] \<and> is_word (last done)) \<noteq> (rest \<noteq> [] \<and> is_word (hd rest)))"

text \<open>\<^verbatim>\<open>search\<close>: the first start position, from the left, at which the pattern matches.\<close>

fun re_search :: "(string \<Rightarrow> 'a list) \<Rightarrow> string \<Rightarrow> 'a option" where
  "re_search m [] = (case m [] of [] \<Rightarrow> None | r # _ \<Rightarrow> Some r)"
| "re_search m (c # cs) = (case m (c # cs) of [] \<Rightarrow> re_search m cs | r # _ \<Rightarrow> Some r)"

subsection \<open>The address\<close>

definition ipaddr_pattern :: matcher where
  \<comment> \<open>\<^verbatim>\<open>([0-9]+\.)+[0-9]+\<close>\<close>
  "ipaddr_pattern =
     re_seq (re_plus (re_seq (re_plus (re_class is_digit)) (re_char CHR ''.'')))
            (re_plus (re_class is_digit))"

definition ipaddr_re :: "string \<Rightarrow> string list" where
  \<comment> \<open>\<^verbatim>\<open>([0-9]+\.)+[0-9]+\b\<close> at the start of the line: group 0 of each way to match\<close>
  "ipaddr_re s = [x. (x, r) \<leftarrow> ipaddr_pattern s, word_boundary x r]"

definition get_ipaddr :: "string \<Rightarrow> error + string" where
  \<comment> \<open>the pattern starts with \<^verbatim>\<open>^\<close>, so \<^verbatim>\<open>search\<close> can match at position 0 only;
      without a match \<^verbatim>\<open>search\<close> gives None and \<^verbatim>\<open>.group\<close> raises\<close>
  "get_ipaddr line = (case ipaddr_re line of [] \<Rightarrow> Inl AttributeError | x # _ \<Rightarrow> Inr x)"

text \<open>
  For comparison with \<open>get_ipaddr\<close>, the reading of the specification: a dotted-numeric
  token is made of two or more groups of digits, none of them empty, with a dot between
  one group and the next.
\<close>

fun pieces :: "char \<Rightarrow> string \<Rightarrow> string list" where
  \<comment> \<open>the pieces between the occurrences of a character; never an empty list\<close>
  "pieces sep [] = [[]]"
| "pieces sep (c # cs) =
     (if c = sep then [] # pieces sep cs
      else (c # hd (pieces sep cs)) # tl (pieces sep cs))"

definition spec_dotted_numeric :: "string \<Rightarrow> bool" where
  "spec_dotted_numeric s =
     (2 \<le> length (pieces CHR ''.'' s) \<and>
      list_all (\<lambda>g. g \<noteq> [] \<and> list_all is_digit g) (pieces CHR ''.'' s))"

subsection \<open>The timestamp\<close>

text \<open>
  \<^verbatim>\<open>datetime.strptime(s, '%d/%b/%Y:%H:%M:%S %z')\<close> is a call into Python's library. The
  library turns the format into one regular expression, a named group for each directive,
  compiled with IGNORECASE; it matches the expression at the start of the text, refuses text
  left over, converts the groups to numbers and builds the \<^verbatim>\<open>datetime\<close>, whose constructor
  checks the ranges. The model follows the library's table of directives (CPython 3.9 to
  3.12, \<^verbatim>\<open>_strptime.py\<close>) under the C locale. Every failure is a ValueError.
\<close>

definition bind_err :: "error + 'a \<Rightarrow> ('a \<Rightarrow> error + 'b) \<Rightarrow> error + 'b" where
  "bind_err m f = (case m of Inl e \<Rightarrow> Inl e | Inr x \<Rightarrow> f x)"

definition digits_value :: "string \<Rightarrow> int" where
  "digits_value s = foldl (\<lambda>n c. 10 * n + int (code c - 48)) 0 s"

definition int_of_str :: "string \<Rightarrow> error + int" where
  \<comment> \<open>\<^verbatim>\<open>int(s)\<close> on the texts a directive can capture: decimal digits, with white space
      around them allowed; anything else raises\<close>
  "int_of_str s =
     (let t = rev (dropWhile is_space (rev (dropWhile is_space s)))
      in if t \<noteq> [] \<and> list_all is_digit t then Inr (digits_value t) else Inl ValueError)"

fun index_of :: "'a \<Rightarrow> 'a list \<Rightarrow> error + int" where
  \<comment> \<open>\<^verbatim>\<open>list.index\<close>\<close>
  "index_of x [] = Inl ValueError"
| "index_of x (y # ys) = (if x = y then Inr 0 else bind_err (index_of x ys) (\<lambda>i. Inr (i + 1)))"

definition a_month :: "string list" where
  \<comment> \<open>the abbreviated month names, in lower case, with an empty name at index 0\<close>
  "a_month = ['''', ''jan'', ''feb'', ''mar'', ''apr'', ''may'', ''jun'',
              ''jul'', ''aug'', ''sep'', ''oct'', ''nov'', ''dec'']"

definition re_digit :: matcher where
  "re_digit = re_class is_digit"

definition dir_d :: matcher where
  \<comment> \<open>\<^verbatim>\<open>3[0-1]|[1-2]\d|0[1-9]|[1-9]| [1-9]\<close>\<close>
  "dir_d = re_alts [re_seq (re_char CHR ''3'') (re_range CHR ''0'' CHR ''1''),
                    re_seq (re_range CHR ''1'' CHR ''2'') re_digit,
                    re_seq (re_char CHR ''0'') (re_range CHR ''1'' CHR ''9''),
                    re_range CHR ''1'' CHR ''9'',
                    re_seq (re_char CHR '' '') (re_range CHR ''1'' CHR ''9'')]"

definition dir_b :: matcher where
  \<comment> \<open>\<^verbatim>\<open>jan|feb|...|dec\<close>\<close>
  "dir_b = re_alts (map re_lit_icase (tl a_month))"

definition dir_Y :: matcher where
  \<comment> \<open>\<^verbatim>\<open>\d\d\d\d\<close>\<close>
  "dir_Y = re_seqs [re_digit, re_digit, re_digit, re_digit]"

definition dir_H :: matcher where
  \<comment> \<open>\<^verbatim>\<open>2[0-3]|[0-1]\d|\d\<close>\<close>
  "dir_H = re_alts [re_seq (re_char CHR ''2'') (re_range CHR ''0'' CHR ''3''),
                    re_seq (re_range CHR ''0'' CHR ''1'') re_digit,
                    re_digit]"

definition dir_M :: matcher where
  \<comment> \<open>\<^verbatim>\<open>[0-5]\d|\d\<close>\<close>
  "dir_M = re_alts [re_seq (re_range CHR ''0'' CHR ''5'') re_digit, re_digit]"

definition dir_S :: matcher where
  \<comment> \<open>\<^verbatim>\<open>6[0-1]|[0-5]\d|\d\<close>\<close>
  "dir_S = re_alts [re_seq (re_char CHR ''6'') (re_range CHR ''0'' CHR ''1''),
                    re_seq (re_range CHR ''0'' CHR ''5'') re_digit,
                    re_digit]"

definition dir_z :: matcher where
  \<comment> \<open>\<^verbatim>\<open>[+-]\d\d:?[0-5]\d(:?[0-5]\d(\.\d{1,6})?)?|(?-i:Z)\<close>\<close>
  "dir_z = re_alts
     [re_seqs [re_class (\<lambda>c. c = CHR ''+'' \<or> c = CHR ''-''), re_digit, re_digit,
               re_opt (re_char CHR '':''), re_range CHR ''0'' CHR ''5'', re_digit,
               re_opt (re_seqs [re_opt (re_char CHR '':''), re_range CHR ''0'' CHR ''5'', re_digit,
                                re_opt (re_seqs [re_char CHR ''.'', re_digit, re_upto 5 re_digit])])],
      re_char CHR ''Z'']"

definition strptime_re ::
  "string \<Rightarrow> ((string \<times> string \<times> string \<times> string \<times> string \<times> string \<times> string) \<times> string) list" where
  \<comment> \<open>the expression of the format: the groups d, b, Y, H, M, S, z and the text left;
      the blank of the format stands for \<^verbatim>\<open>\s+\<close>\<close>
  "strptime_re s =
     [((d, b, Y, H, M, S, z), r13).
        (d, r1) \<leftarrow> dir_d s, (s1, r2) \<leftarrow> re_char CHR ''/'' r1,
        (b, r3) \<leftarrow> dir_b r2, (s2, r4) \<leftarrow> re_char CHR ''/'' r3,
        (Y, r5) \<leftarrow> dir_Y r4, (s3, r6) \<leftarrow> re_char CHR '':'' r5,
        (H, r7) \<leftarrow> dir_H r6, (s4, r8) \<leftarrow> re_char CHR '':'' r7,
        (M, r9) \<leftarrow> dir_M r8, (s5, r10) \<leftarrow> re_char CHR '':'' r9,
        (S, r11) \<leftarrow> dir_S r10, (s6, r12) \<leftarrow> re_plus (re_class is_space) r11,
        (z, r13) \<leftarrow> dir_z r12]"

definition gmtoff_of :: "string \<Rightarrow> error + int" where
  \<comment> \<open>the offset of the group z, in microseconds (the library's \<^verbatim>\<open>gmtoff\<close> seconds and
      \<^verbatim>\<open>gmtoff_fraction\<close> microseconds together)\<close>
  "gmtoff_of z0 =
     (if z0 = ''Z'' then Inr 0
      else
        let colon = (3 < length z0 \<and> z0 ! 3 = CHR '':'');
            z1 = (if colon then take 3 z0 @ drop 4 z0 else z0)
        in if colon \<and> 5 < length z1 \<and> z1 ! 5 \<noteq> CHR '':'' then Inl ValueError
           else
             let z = (if colon \<and> 5 < length z1 then take 5 z1 @ drop 6 z1 else z1) in
             bind_err (int_of_str (take 2 (drop 1 z))) (\<lambda>hours.
             bind_err (int_of_str (take 2 (drop 3 z))) (\<lambda>minutes.
             bind_err (if take 2 (drop 5 z) = [] then Inr 0 else int_of_str (take 2 (drop 5 z))) (\<lambda>seconds.
             let gmtoff_remainder = drop 8 z in
             bind_err (int_of_str (gmtoff_remainder @ replicate (6 - length gmtoff_remainder) CHR ''0''))
               (\<lambda>gmtoff_fraction.
             let total = (hours * 60 * 60 + minutes * 60 + seconds) * 1000000 + gmtoff_fraction
             in Inr (if take 1 z = ''-'' then - total else total))))))"

record datetime =
  year :: int
  month :: int
  day :: int
  hour :: int
  minute :: int
  second :: int
  utcoffset :: int

definition is_leap :: "int \<Rightarrow> bool" where
  \<comment> \<open>a year divisible by 4, and by 400 when it is divisible by 100\<close>
  "is_leap y = (y mod 4 = 0 \<and> (0 < y mod 100 \<or> y mod 400 = 0))"

definition days_in_month :: "int \<Rightarrow> int \<Rightarrow> int" where
  "days_in_month y m =
     (if m = 2 then (if is_leap y then 29 else 28)
      else if m = 4 \<or> m = 6 \<or> m = 9 \<or> m = 11 then 30 else 31)"

definition make_datetime :: "int \<Rightarrow> int \<Rightarrow> int \<Rightarrow> int \<Rightarrow> int \<Rightarrow> int \<Rightarrow> int \<Rightarrow> error + datetime" where
  \<comment> \<open>the checks of \<^verbatim>\<open>date\<close>, \<^verbatim>\<open>timezone\<close> and \<^verbatim>\<open>datetime\<close>: a date of the calendar
      between the years 1 and 9999, a time of the day, an offset of less than a day\<close>
  "make_datetime y mo d h mi s off =
     (if 1 \<le> y \<and> y \<le> 9999 \<and> 1 \<le> mo \<and> mo \<le> 12 \<and> 1 \<le> d \<and> d \<le> days_in_month y mo \<and>
         0 \<le> h \<and> h \<le> 23 \<and> 0 \<le> mi \<and> mi \<le> 59 \<and> 0 \<le> s \<and> s \<le> 59 \<and>
         - 86400000000 < off \<and> off < 86400000000
      then Inr \<lparr>year = y, month = mo, day = d, hour = h, minute = mi, second = s, utcoffset = off\<rparr>
      else Inl ValueError)"

definition strptime :: "string \<Rightarrow> error + datetime" where
  "strptime data_string =
     (case strptime_re data_string of
        [] \<Rightarrow> Inl ValueError
      | ((d, b, Y, H, M, S, z), rest) # _ \<Rightarrow>
          if rest \<noteq> [] then Inl ValueError
          else
            bind_err (int_of_str Y) (\<lambda>y.
            bind_err (index_of (lower b) a_month) (\<lambda>mo.
            bind_err (int_of_str d) (\<lambda>dd.
            bind_err (int_of_str H) (\<lambda>h.
            bind_err (int_of_str M) (\<lambda>mi.
            bind_err (int_of_str S) (\<lambda>s.
            bind_err (gmtoff_of z) (\<lambda>off.
            make_datetime y mo dd h mi s off))))))))"

subsection \<open>The hour\<close>

definition bracket_re :: "string \<Rightarrow> string list" where
  \<comment> \<open>\<^verbatim>\<open>\[(.+)\]\<close> at the start of \<open>s\<close>: group 1 of each way to match\<close>
  "bracket_re s =
     [g. (b1, r1) \<leftarrow> re_char CHR ''['' s,
         (g, r2) \<leftarrow> re_plus (re_class not_newline) r1,
         (b2, r3) \<leftarrow> re_char CHR '']'' r2]"

definition get_hour :: "string \<Rightarrow> error + int" where
  \<comment> \<open>without a match \<^verbatim>\<open>m\<close> is None and \<^verbatim>\<open>m.group\<close> raises; the hour is the field of the
      \<^verbatim>\<open>datetime\<close>, which no offset changes\<close>
  "get_hour line =
     (case re_search bracket_re line of
        None \<Rightarrow> Inl AttributeError
      | Some g \<Rightarrow> bind_err (strptime g) (\<lambda>dt. Inr (hour dt)))"

subsection \<open>The two passes over a file\<close>

text \<open>
  The file system is a map from a file's name to the lines that iterating over the open
  file yields (each line with its end-of-line character, when it has one). \<^verbatim>\<open>open\<close>
  raises FileNotFoundError for a name that is not there. An exception in the loop leaves
  the function, and the dictionary or set built so far is lost.
\<close>

type_synonym files = "string \<rightharpoonup> string list"

fun histbyhour_loop :: "(int \<rightharpoonup> int) \<Rightarrow> string list \<Rightarrow> error + (int \<rightharpoonup> int)" where
  "histbyhour_loop hours_recorded [] = Inr hours_recorded"
| "histbyhour_loop hours_recorded (line # rest) =
     bind_err (get_hour line) (\<lambda>accessed_hour.
       case hours_recorded accessed_hour of
         Some n \<Rightarrow> histbyhour_loop (hours_recorded(accessed_hour \<mapsto> n + 1)) rest
       | None \<Rightarrow> histbyhour_loop (hours_recorded(accessed_hour \<mapsto> 1)) rest)"

definition histbyhour :: "files \<Rightarrow> string \<Rightarrow> error + (int \<rightharpoonup> int)" where
  "histbyhour fs filename =
     (case fs filename of
        None \<Rightarrow> Inl FileNotFoundError
      | Some lines \<Rightarrow> histbyhour_loop Map.empty lines)"

fun ipaddreses_loop :: "string set \<Rightarrow> string list \<Rightarrow> error + string set" where
  "ipaddreses_loop ip_numbers [] = Inr ip_numbers"
| "ipaddreses_loop ip_numbers (line # rest) =
     (if \<not> is_bot (get_user_agent line)
      then bind_err (get_ipaddr line) (\<lambda>a. ipaddreses_loop (insert a ip_numbers) rest)
      else ipaddreses_loop ip_numbers rest)"

definition ipaddreses :: "files \<Rightarrow> string \<Rightarrow> error + string set" where
  "ipaddreses fs filename =
     (case fs filename of
        None \<Rightarrow> Inl FileNotFoundError
      | Some lines \<Rightarrow> ipaddreses_loop {} lines)"

section \<open>Properties\<close>

subsection \<open>Searching for a literal\<close>

lemma search_literal_sublist: "search_literal p s = sublist p s"
  by (induction s) (auto simp: sublist_Cons_right)

lemma is_bot_examples:
  "is_bot (Some ''GoogleBOT'')" "is_bot (Some ''googlebot'')" "\<not> is_bot (Some ''Mozilla/5.0 Firefox'')"
  by code_simp+

text \<open>
  C4. \<open>is_bot\<close> is true exactly when the argument, in lower case, contains \<open>bot\<close>
  somewhere; so it is true of \<open>GoogleBOT\<close> and of \<open>googlebot\<close>, false of
  \<open>Mozilla/5.0 Firefox\<close>, and false of None and of the empty string.
\<close>

theorem is_bot_iff_contains_bot:
  "is_bot None = False \<and> is_bot (Some []) = False \<and>
   (\<forall>s. is_bot (Some s) = (\<exists>pre post. lower s = pre @ ''bot'' @ post)) \<and>
   is_bot (Some ''GoogleBOT'') = True \<and> is_bot (Some ''googlebot'') = True \<and>
   is_bot (Some ''Mozilla/5.0 Firefox'') = False"
proof -
  have "is_bot (Some s) = (\<exists>pre post. lower s = pre @ ''bot'' @ post)" for s
  proof (cases "s = []")
    case True
    then show ?thesis by (simp add: lower_def)
  next
    case False
    then show ?thesis by (simp add: search_literal_sublist sublist_def)
  qed
  then show ?thesis using is_bot_examples by simp
qed

subsection \<open>The matchers\<close>

lemma re_plus_class_Nil: "re_plus (re_class P) [] = []"
  by (subst re_plus.simps) (simp add: re_class_def)

lemma re_plus_class_Cons:
  "re_plus (re_class P) (c # cs) =
     (if P c then map (\<lambda>(y, r). (c # y, r)) (re_plus (re_class P) cs) @ [([c], cs)] else [])"
  by (subst re_plus.simps) (simp add: re_class_def case_prod_unfold)

lemma re_plus_class_set:
  "set (re_plus (re_class P) s) = {(x, r). x \<noteq> [] \<and> list_all P x \<and> s = x @ r}"
proof (induction s)
  case Nil
  show ?case by (simp add: re_plus_class_Nil)
next
  case (Cons c cs)
  show ?case
  proof (cases "P c")
    case False
    have "\<not> (x \<noteq> [] \<and> list_all P x \<and> c # cs = x @ r)" for x r
      using False by (cases x) auto
    then show ?thesis using False by (simp add: re_plus_class_Cons)
  next
    case True
    have "((x, r) \<in> set (re_plus (re_class P) (c # cs))) = (x \<noteq> [] \<and> list_all P x \<and> c # cs = x @ r)" for x r
    proof (cases x)
      case Nil
      then show ?thesis using True by (auto simp: re_plus_class_Cons)
    next
      case (Cons y ys)
      show ?thesis
      proof (cases ys)
        case Nil
        then show ?thesis using True Cons Cons.IH by (auto simp: re_plus_class_Cons)
      next
        case (Cons z zs)
        then show ?thesis using True \<open>x = y # ys\<close> Cons.IH
          by (auto simp: re_plus_class_Cons image_iff)
      qed
    qed
    then show ?thesis by auto
  qed
qed

lemma re_char_Cons: "re_char c (x # xs) = (if x = c then [([x], xs)] else [])"
  by (simp add: re_char_def re_class_def)

lemma re_char_Nil: "re_char c [] = []"
  by (simp add: re_char_def re_class_def)

subsection \<open>Finding the bracketed text\<close>

lemma bracket_re_set:
  "set (bracket_re s) =
     {g. \<exists>r. s = CHR ''['' # g @ CHR '']'' # r \<and> g \<noteq> [] \<and> list_all not_newline g}"
proof (cases s)
  case Nil
  then show ?thesis by (simp add: bracket_re_def re_char_Nil)
next
  case (Cons c cs)
  show ?thesis
  proof (cases "c = CHR ''[''")
    case False
    with Cons show ?thesis by (auto simp: bracket_re_def re_char_Cons)
  next
    case True
    have "(g \<in> set (bracket_re s)) =
          (\<exists>r. s = CHR ''['' # g @ CHR '']'' # r \<and> g \<noteq> [] \<and> list_all not_newline g)" for g
    proof -
      have "(g \<in> set (bracket_re s)) =
            (\<exists>r2. (g, r2) \<in> set (re_plus (re_class not_newline) cs) \<and> re_char CHR '']'' r2 \<noteq> [])"
      proof -
        have "(g \<in> (\<lambda>x. a) ` S) = (S \<noteq> {} \<and> g = a)" for a :: string and S :: "(string \<times> string) set"
          by auto
        then show ?thesis
          using Cons True
          by (simp add: bracket_re_def re_char_Cons case_prod_unfold) force
      qed
      also have "\<dots> = (\<exists>r2. g \<noteq> [] \<and> list_all not_newline g \<and> cs = g @ r2 \<and> r2 \<noteq> [] \<and> hd r2 = CHR '']'')"
      proof -
        have "(re_char CHR '']'' r2 \<noteq> []) = (r2 \<noteq> [] \<and> hd r2 = CHR '']'')" for r2
          by (cases r2) (simp_all add: re_char_Nil re_char_Cons)
        then show ?thesis by (simp add: re_plus_class_set)
      qed
      also have "\<dots> = (\<exists>r. s = CHR ''['' # g @ CHR '']'' # r \<and> g \<noteq> [] \<and> list_all not_newline g)"
      proof
        assume "\<exists>r2. g \<noteq> [] \<and> list_all not_newline g \<and> cs = g @ r2 \<and> r2 \<noteq> [] \<and> hd r2 = CHR '']''"
        then obtain r2 where r2: "g \<noteq> []" "list_all not_newline g" "cs = g @ r2" "r2 \<noteq> []" "hd r2 = CHR '']''"
          by blast
        then have "r2 = CHR '']'' # tl r2" by (cases r2) simp_all
        with r2 Cons True have "s = CHR ''['' # g @ CHR '']'' # tl r2" by simp
        with r2 show "\<exists>r. s = CHR ''['' # g @ CHR '']'' # r \<and> g \<noteq> [] \<and> list_all not_newline g"
          by blast
      next
        assume "\<exists>r. s = CHR ''['' # g @ CHR '']'' # r \<and> g \<noteq> [] \<and> list_all not_newline g"
        then obtain r where "s = CHR ''['' # g @ CHR '']'' # r" "g \<noteq> []" "list_all not_newline g"
          by blast
        with Cons have "g \<noteq> [] \<and> list_all not_newline g \<and> cs = g @ (CHR '']'' # r) \<and>
                        CHR '']'' # r \<noteq> [] \<and> hd (CHR '']'' # r) = CHR '']''"
          by simp
        then show "\<exists>r2. g \<noteq> [] \<and> list_all not_newline g \<and> cs = g @ r2 \<and> r2 \<noteq> [] \<and> hd r2 = CHR '']''"
          by blast
      qed
      finally show ?thesis .
    qed
    then show ?thesis by blast
  qed
qed

lemma bracket_re_other: "CHR ''['' \<noteq> c \<Longrightarrow> bracket_re (c # cs) = []"
  by (auto simp: bracket_re_def re_char_Cons)

lemma re_search_skip: "CHR ''['' \<notin> set pre \<Longrightarrow> re_search bracket_re (pre @ s) = re_search bracket_re s"
  by (induction pre) (simp_all add: bracket_re_other)

lemma re_search_None:
  "(\<And>t. suffix t s \<Longrightarrow> m t = []) \<Longrightarrow> re_search m s = None"
proof (induction s)
  case Nil
  then show ?case by simp
next
  case (Cons c cs)
  have "m (c # cs) = []" using Cons.prems[of "c # cs"] by simp
  moreover have "re_search m cs = None"
    by (rule Cons.IH) (simp add: Cons.prems suffix_Cons)
  ultimately show ?case by simp
qed

lemma bracket_re_empty:
  "CHR ''['' \<notin> set s \<or> CHR '']'' \<notin> set s \<Longrightarrow> bracket_re s = []"
proof -
  assume a: "CHR ''['' \<notin> set s \<or> CHR '']'' \<notin> set s"
  have "set (bracket_re s) = {}"
    unfolding bracket_re_set using a by auto
  then show ?thesis by simp
qed

lemma get_hour_no_bracket:
  assumes "CHR ''['' \<notin> set line \<or> CHR '']'' \<notin> set line"
  shows "get_hour line = Inl AttributeError"
proof -
  have "bracket_re t = []" if "suffix t line" for t
  proof (rule bracket_re_empty)
    from that have "set t \<subseteq> set line" by (auto simp: suffix_def)
    with assms show "CHR ''['' \<notin> set t \<or> CHR '']'' \<notin> set t" by blast
  qed
  then have "re_search bracket_re line = None" by (rule re_search_None)
  then show ?thesis by (simp add: get_hour_def)
qed

lemma close_bracket_unique:
  assumes "ts @ CHR '']'' # post = g @ CHR '']'' # r" "CHR '']'' \<notin> set ts" "CHR '']'' \<notin> set post"
  shows "g = ts"
  using assms
  by (auto simp: append_eq_append_conv2 Cons_eq_append_conv append_eq_Cons_conv)

lemma re_search_bracket:
  assumes "CHR ''['' \<notin> set pre" "ts \<noteq> []" "list_all not_newline ts"
    "CHR '']'' \<notin> set ts" "CHR '']'' \<notin> set post"
  shows "re_search bracket_re (pre @ CHR ''['' # ts @ CHR '']'' # post) = Some ts"
proof -
  let ?s = "CHR ''['' # ts @ CHR '']'' # post"
  have skip: "re_search bracket_re (pre @ ?s) = re_search bracket_re ?s"
    using assms(1) by (rule re_search_skip)
  have set_eq: "set (bracket_re ?s) = {ts}"
  proof -
    have "g = ts" if "g \<in> set (bracket_re ?s)" for g
      using that assms(4,5) unfolding bracket_re_set
      by (auto dest: close_bracket_unique)
    moreover have "ts \<in> set (bracket_re ?s)"
      unfolding bracket_re_set using assms(2,3) by auto
    ultimately show ?thesis by blast
  qed
  then obtain x xs where xs: "bracket_re ?s = x # xs"
    by (cases "bracket_re ?s") auto
  with set_eq have "x = ts" by auto
  with xs have "re_search bracket_re ?s = Some ts" by simp
  with skip show ?thesis by simp
qed

subsection \<open>The two loops\<close>

lemma bind_err_Inr [simp]: "bind_err (Inr x) f = f x"
  by (simp add: bind_err_def)

lemma bind_err_Inl [simp]: "bind_err (Inl e) f = Inl e"
  by (simp add: bind_err_def)

lemma histbyhour_loop_fails:
  "L \<in> set lines \<Longrightarrow> get_hour L = Inl e \<Longrightarrow> \<exists>e'. histbyhour_loop m lines = Inl e'"
proof (induction lines arbitrary: m)
  case Nil
  then show ?case by simp
next
  case (Cons x xs)
  show ?case
  proof (cases "get_hour x")
    case (Inl e0)
    then show ?thesis by simp
  next
    case (Inr h)
    with Cons.prems have "L \<in> set xs" by auto
    then have "\<exists>e'. histbyhour_loop m' xs = Inl e'" for m'
      using Cons.IH Cons.prems(2) by blast
    then show ?thesis using Inr by (cases "m h") simp_all
  qed
qed

lemma histbyhour_loop_first_error:
  "\<forall>L \<in> set pre. \<exists>h. get_hour L = Inr h \<Longrightarrow> get_hour L = Inl e \<Longrightarrow>
   histbyhour_loop m (pre @ L # post) = Inl e"
proof (induction pre arbitrary: m)
  case Nil
  then show ?case by simp
next
  case (Cons x xs)
  then obtain h where h: "get_hour x = Inr h" by auto
  have "histbyhour_loop m' (xs @ L # post) = Inl e" for m'
    using Cons.IH Cons.prems by simp
  then show ?case using h by (cases "m h") simp_all
qed

lemma histbyhour_loop_counts:
  "\<forall>L \<in> set lines. \<exists>h. get_hour L = Inr h \<Longrightarrow>
   histbyhour_loop m lines =
     Inr (\<lambda>h. if count_list (map (\<lambda>L. projr (get_hour L)) lines) h = 0 then m h
               else Some ((case m h of None \<Rightarrow> 0 | Some n \<Rightarrow> n) +
                          int (count_list (map (\<lambda>L. projr (get_hour L)) lines) h)))"
proof (induction lines arbitrary: m)
  case Nil
  show ?case by simp
next
  case (Cons x xs)
  then obtain a where a: "get_hour x = Inr a" by auto
  have all: "\<forall>L \<in> set xs. \<exists>h. get_hour L = Inr h" using Cons.prems by simp
  let ?c = "count_list (map (\<lambda>L. projr (get_hour L)) xs)"
  let ?goal = "Inr (\<lambda>h. if count_list (map (\<lambda>L. projr (get_hour L)) (x # xs)) h = 0 then m h
               else Some ((case m h of None \<Rightarrow> 0 | Some n \<Rightarrow> n) +
                          int (count_list (map (\<lambda>L. projr (get_hour L)) (x # xs)) h)))"
  have step: "histbyhour_loop m' xs =
      Inr (\<lambda>h. if ?c h = 0 then m' h
                else Some ((case m' h of None \<Rightarrow> 0 | Some n \<Rightarrow> n) + int (?c h)))" for m'
    by (rule Cons.IH[OF all])
  show ?case
  proof (cases "m a")
    case None
    have "histbyhour_loop m (x # xs) = histbyhour_loop (m(a \<mapsto> 1)) xs"
      using a None by simp
    also have "\<dots> = ?goal"
      unfolding step using a None by (auto simp: fun_eq_iff)
    finally show ?thesis .
  next
    case (Some n)
    have "histbyhour_loop m (x # xs) = histbyhour_loop (m(a \<mapsto> n + 1)) xs"
      using a Some by simp
    also have "\<dots> = ?goal"
      unfolding step using a Some by (auto simp: fun_eq_iff)
    finally show ?thesis .
  qed
qed

lemma histbyhour_loop_perm:
  assumes "mset lines' = mset lines" "\<forall>L \<in> set lines. \<exists>h. get_hour L = Inr h"
  shows "histbyhour_loop m lines' = histbyhour_loop m lines"
proof -
  have "set lines' = set lines" using assms(1) by (rule mset_eq_setD)
  then have ok': "\<forall>L \<in> set lines'. \<exists>h. get_hour L = Inr h" using assms(2) by simp
  have "count_list (map (\<lambda>L. projr (get_hour L)) lines') h =
        count_list (map (\<lambda>L. projr (get_hour L)) lines) h" for h
    using assms(1) by (metis count_mset mset_map)
  then have eq: "count_list (map (\<lambda>L. projr (get_hour L)) lines') =
                 count_list (map (\<lambda>L. projr (get_hour L)) lines)"
    by (rule ext)
  show ?thesis
    unfolding histbyhour_loop_counts[OF ok'] histbyhour_loop_counts[OF assms(2)] eq ..
qed

lemma ipaddreses_loop_set:
  "\<forall>L \<in> set lines. \<not> is_bot (get_user_agent L) \<longrightarrow> (\<exists>a. get_ipaddr L = Inr a) \<Longrightarrow>
   ipaddreses_loop S lines =
     Inr (S \<union> {a. \<exists>L \<in> set lines. \<not> is_bot (get_user_agent L) \<and> get_ipaddr L = Inr a})"
proof (induction lines arbitrary: S)
  case Nil
  show ?case by simp
next
  case (Cons x xs)
  have all: "\<forall>L \<in> set xs. \<not> is_bot (get_user_agent L) \<longrightarrow> (\<exists>a. get_ipaddr L = Inr a)"
    using Cons.prems by simp
  show ?case
  proof (cases "is_bot (get_user_agent x)")
    case True
    then show ?thesis using Cons.IH[OF all, of S] by auto
  next
    case False
    with Cons.prems obtain a where a: "get_ipaddr x = Inr a" by auto
    have "ipaddreses_loop S (x # xs) = ipaddreses_loop (insert a S) xs"
      using False a by simp
    also have "\<dots> = Inr (insert a S \<union> {a. \<exists>L \<in> set xs. \<not> is_bot (get_user_agent L) \<and> get_ipaddr L = Inr a})"
      by (rule Cons.IH[OF all])
    also have "\<dots> = Inr (S \<union> {b. \<exists>L \<in> set (x # xs). \<not> is_bot (get_user_agent L) \<and> get_ipaddr L = Inr b})"
      using False a by auto
    finally show ?thesis .
  qed
qed

lemma ipaddreses_loop_skips_bot:
  "is_bot (get_user_agent L) \<Longrightarrow>
   ipaddreses_loop S (pre @ L # post) = ipaddreses_loop S (pre @ post)"
proof (induction pre arbitrary: S)
  case Nil
  then show ?case by simp
next
  case (Cons x xs)
  show ?case
  proof (cases "is_bot (get_user_agent x)")
    case True
    then show ?thesis using Cons by simp
  next
    case False
    then show ?thesis using Cons by (cases "get_ipaddr x") simp_all
  qed
qed

lemma ipaddreses_loop_fails:
  "L \<in> set lines \<Longrightarrow> \<not> is_bot (get_user_agent L) \<Longrightarrow> get_ipaddr L = Inl e \<Longrightarrow>
   \<exists>e'. ipaddreses_loop S lines = Inl e'"
proof (induction lines arbitrary: S)
  case Nil
  then show ?case by simp
next
  case (Cons x xs)
  show ?case
  proof (cases "x = L")
    case True
    then show ?thesis using Cons.prems by simp
  next
    case False
    with Cons.prems have "L \<in> set xs" by simp
    then have "\<exists>e'. ipaddreses_loop S' xs = Inl e'" for S'
      using Cons.IH Cons.prems by blast
    then show ?thesis by (cases "get_ipaddr x") simp_all
  qed
qed

subsection \<open>Splitting and stripping\<close>

lemma split_from_not_Nil: "split_from sep cur s \<noteq> []"
  by (induction sep cur s rule: split_from.induct) auto

lemma split_from_no_sep: "\<not> sublist sep s \<Longrightarrow> split_from sep cur s = [cur @ s]"
proof (induction s arbitrary: cur)
  case Nil
  show ?case by simp
next
  case (Cons c cs)
  have "\<not> prefix sep (c # cs)" using Cons.prems by (auto dest: prefix_imp_sublist)
  moreover have "\<not> sublist sep cs" using Cons.prems by (auto simp: sublist_Cons_right)
  ultimately show ?case using Cons.IH[of "cur @ [c]"] by simp
qed

lemma split_from_last_sep:
  \<open>last (split_from ''" '' cur (pre @ ''" '' @ t)) = last (split_from ''" '' [] t)\<close>
proof (induction pre arbitrary: cur rule: length_induct)
  case (1 pre)
  show ?case
  proof (cases pre)
    case Nil
    then show ?thesis by (simp add: split_from_not_Nil)
  next
    case (Cons c cs)
    show ?thesis
    proof (cases cs)
      case Nil
      have \<open>last (split_from ''" '' (cur @ [c]) ([] @ ''" '' @ t)) = last (split_from ''" '' [] t)\<close>
        by (simp add: split_from_not_Nil)
      then show ?thesis using Cons Nil by (simp add: split_from_not_Nil)
    next
      case (Cons d ds)
      show ?thesis
      proof (cases \<open>c = CHR 0x22 \<and> d = CHR '' ''\<close>)
        case True
        have \<open>last (split_from ''" '' [] (ds @ ''" '' @ t)) = last (split_from ''" '' [] t)\<close>
          using 1 \<open>pre = c # cs\<close> Cons by simp
        then show ?thesis using \<open>pre = c # cs\<close> Cons True by (simp add: split_from_not_Nil)
      next
        case False
        have \<open>last (split_from ''" '' (cur @ [c]) (cs @ ''" '' @ t)) = last (split_from ''" '' [] t)\<close>
          using 1 \<open>pre = c # cs\<close> by simp
        then show ?thesis using \<open>pre = c # cs\<close> Cons False by auto
      qed
    qed
  qed
qed

lemma split_from_quoted_tail:
  assumes "CHR 0x22 \<notin> set ua" "e = [] \<or> e = [CHR 0x0A]"
  shows \<open>split_from ''" '' cur (ua @ CHR 0x22 # e) = [cur @ ua @ CHR 0x22 # e]\<close>
  using assms(1)
proof (induction ua arbitrary: cur)
  case Nil
  show ?case using assms(2) by auto
next
  case (Cons c cs)
  then show ?case using Cons.IH[of "cur @ [c]"] by simp
qed

lemma strip_chars_middle:
  assumes "set a \<subseteq> set chars" "set b \<subseteq> set chars"
    "ua = [] \<or> (hd ua \<notin> set chars \<and> last ua \<notin> set chars)"
  shows "strip_chars chars (a @ ua @ b) = ua"
proof (cases "ua = []")
  case True
  have "\<forall>x \<in> set (a @ b). x \<in> set chars"
    using assms(1,2) by auto
  then have d: "dropWhile (\<lambda>c. c \<in> set chars) (a @ b) = []"
    by (simp only: dropWhile_eq_Nil_conv)
  have "strip_chars chars (a @ b) = []"
    unfolding strip_chars_def d by simp
  then show ?thesis using True by simp
next
  case False
  with assms(3) have h: "hd ua \<notin> set chars" "last ua \<notin> set chars" by auto
  have "dropWhile (\<lambda>c. c \<in> set chars) (a @ ua @ b) = dropWhile (\<lambda>c. c \<in> set chars) (ua @ b)"
    using assms(1) by (auto simp: dropWhile_append)
  also have "\<dots> = ua @ b"
    using False h(1) by (cases ua) auto
  finally have 1: "dropWhile (\<lambda>c. c \<in> set chars) (a @ ua @ b) = ua @ b" .
  have "dropWhile (\<lambda>c. c \<in> set chars) (rev b @ rev ua) = dropWhile (\<lambda>c. c \<in> set chars) (rev ua)"
    using assms(2) by (auto simp: dropWhile_append)
  also have "\<dots> = rev ua"
    using False h(2) by (cases "rev ua") (auto simp: last_rev[symmetric] hd_rev)
  finally have 2: "dropWhile (\<lambda>c. c \<in> set chars) (rev b @ rev ua) = rev ua" .
  show ?thesis by (simp add: strip_chars_def 1 2)
qed

lemma get_user_agent_quoted:
  assumes "CHR 0x22 \<notin> set ua"
    "ua = [] \<or> (hd ua \<notin> {CHR '' '', CHR 0x0A} \<and> last ua \<notin> {CHR '' '', CHR 0x0A})"
    "e = [] \<or> e = [CHR 0x0A]"
  shows \<open>get_user_agent (pre @ ''" "'' @ ua @ ''"'' @ e) = (if 2 < length ua then Some ua else None)\<close>
proof -
  let ?t = "CHR 0x22 # ua @ CHR 0x22 # e"
  have \<open>pre @ ''" "'' @ ua @ ''"'' @ e = pre @ ''" '' @ ?t\<close> by simp
  then have \<open>last (split_str ''" '' (pre @ ''" "'' @ ua @ ''"'' @ e)) = last (split_from ''" '' [] ?t)\<close>
    by (simp only: split_str_def split_from_last_sep)
  also have \<open>split_from ''" '' [] ?t = [?t]\<close>
  proof -
    have \<open>\<not> prefix ''" '' ?t\<close> using assms(1,2) by (cases ua) auto
    then have \<open>split_from ''" '' [] ?t = split_from ''" '' [CHR 0x22] (ua @ CHR 0x22 # e)\<close>
      by simp
    also have \<open>\<dots> = [[CHR 0x22] @ ua @ CHR 0x22 # e]\<close>
      using assms(1,3) by (rule split_from_quoted_tail)
    finally show ?thesis by simp
  qed
  finally have seg: \<open>last (split_str ''" '' (pre @ ''" "'' @ ua @ ''"'' @ e)) = ?t\<close> by simp
  have \<open>strip_chars ''" \<newline>'' ([CHR 0x22] @ ua @ (CHR 0x22 # e)) = ua\<close>
  proof (rule strip_chars_middle)
    show \<open>set [CHR 0x22] \<subseteq> set ''" \<newline>''\<close> by simp
    show \<open>set (CHR 0x22 # e) \<subseteq> set ''" \<newline>''\<close> using assms(3) by auto
    show \<open>ua = [] \<or> (hd ua \<notin> set ''" \<newline>'' \<and> last ua \<notin> set ''" \<newline>'')\<close>
    proof (cases "ua = []")
      case True
      then show ?thesis by simp
    next
      case False
      then have "hd ua \<in> set ua" "last ua \<in> set ua" by simp_all
      with assms(1) have "hd ua \<noteq> CHR 0x22" "last ua \<noteq> CHR 0x22" by auto
      with False assms(2) show ?thesis by auto
    qed
  qed
  then have \<open>strip_chars ''" \<newline>'' ?t = ua\<close> by simp
  with seg show ?thesis by (simp add: get_user_agent_def)
qed

lemma spec_final_quoted_tail:
  assumes "CHR 0x22 \<notin> set ua" "e = [] \<or> e = [CHR 0x0A]"
  shows \<open>spec_final_quoted (pre @ ''" "'' @ ua @ ''"'' @ e) = Some ua\<close>
proof -
  have \<open>rev (pre @ ''" "'' @ ua @ ''"'' @ e) = rev e @ CHR 0x22 # (rev ua @ CHR 0x22 # CHR '' '' # CHR 0x22 # rev pre)\<close>
    by simp
  moreover have \<open>dropWhile (\<lambda>c. c \<noteq> CHR 0x22) (rev e @ CHR 0x22 # r) = CHR 0x22 # r\<close> for r
    using assms(2) by auto
  moreover have \<open>takeWhile (\<lambda>c. c \<noteq> CHR 0x22) (rev ua @ CHR 0x22 # r) = rev ua\<close> for r
  proof -
    have \<open>takeWhile (\<lambda>c. c \<noteq> CHR 0x22) (rev ua @ CHR 0x22 # r) =
          rev ua @ takeWhile (\<lambda>c. c \<noteq> CHR 0x22) (CHR 0x22 # r)\<close>
      by (rule takeWhile_append2) (use assms(1) in auto)
    then show ?thesis by simp
  qed
  ultimately show ?thesis
    by (simp only: spec_final_quoted_def list.case) simp
qed

lemma get_user_agent_unsplit:
  assumes \<open>\<not> sublist ''" '' line\<close>
  shows \<open>get_user_agent line =
     (if 2 < length (strip_chars ''" \<newline>'' line) then Some (strip_chars ''" \<newline>'' line) else None)\<close>
  using assms by (simp add: get_user_agent_def split_str_def split_from_no_sep Let_def)

subsection \<open>The pattern of the address\<close>

lemma re_seq_set:
  "((z, r') \<in> set (re_seq a b s)) = (\<exists>x r y. (x, r) \<in> set (a s) \<and> (y, r') \<in> set (b r) \<and> z = x @ y)"
proof -
  have "re_seq a b s = concat (map (\<lambda>p. map (\<lambda>q. (fst p @ fst q, snd q)) (b (snd p))) (a s))"
    by (simp add: re_seq_def case_prod_unfold)
  then show ?thesis by force
qed

lemma re_char_set: "((x, r) \<in> set (re_char c s)) = (x = [c] \<and> s = c # r)"
  by (cases s) (auto simp: re_char_Cons re_char_Nil)

lemma digit_group_set:
  "((g, r) \<in> set (re_seq (re_plus (re_class is_digit)) (re_char CHR ''.'') s)) =
   (\<exists>d. d \<noteq> [] \<and> list_all is_digit d \<and> g = d @ ''.'' \<and> s = d @ CHR ''.'' # r)"
  by (auto simp: re_seq_set re_plus_class_set re_char_set)

lemma re_plus_set_unfold:
  "((z, r') \<in> set (re_plus a s)) =
   (\<exists>x r. (x, r) \<in> set (a s) \<and>
      ((z, r') = (x, r) \<or> (length r < length s \<and> (\<exists>y. (y, r') \<in> set (re_plus a r) \<and> z = x @ y))))"
proof -
  define step where "step = (\<lambda>(x, r). (if length r < length s
                           then map (\<lambda>(y, r'). (x @ y, r')) (re_plus a r) else []) @ [(x, r)])"
  have unf: "re_plus a s = concat (map step (a s))"
    by (subst re_plus.simps) (simp add: step_def)
  have mem: "((z, r') \<in> set (step (x, r))) =
      ((z, r') = (x, r) \<or> (length r < length s \<and> (\<exists>y. (y, r') \<in> set (re_plus a r) \<and> z = x @ y)))" for x r
  proof (cases "length r < length s")
    case True
    have "((z, r') \<in> (\<lambda>(y, r'). (x @ y, r')) ` set (re_plus a r)) =
          (\<exists>y. (y, r') \<in> set (re_plus a r) \<and> z = x @ y)"
      by force
    then show ?thesis using True by (auto simp: step_def)
  next
    case False
    then show ?thesis by (auto simp: step_def)
  qed
  have "((z, r') \<in> set (re_plus a s)) = (\<exists>p \<in> set (a s). (z, r') \<in> set (step p))"
    unfolding unf by simp
  also have "\<dots> = (\<exists>x r. (x, r) \<in> set (a s) \<and> (z, r') \<in> set (step (x, r)))"
    by auto
  finally show ?thesis unfolding mem .
qed

lemma pieces_not_Nil: "pieces sep s \<noteq> []"
  by (induction s) auto

lemma pieces_no_sep: "sep \<notin> set d \<Longrightarrow> pieces sep d = [d]"
  by (induction d) auto

lemma pieces_append_sep: "sep \<notin> set d \<Longrightarrow> pieces sep (d @ sep # t) = d # pieces sep t"
  by (induction d) auto

lemma pieces_single: "pieces sep s = [y] \<Longrightarrow> s = y \<and> sep \<notin> set y"
proof (induction s arbitrary: y)
  case Nil
  then show ?case by auto
next
  case (Cons c cs)
  show ?case
  proof (cases "c = sep")
    case True
    with Cons.prems show ?thesis by (simp add: pieces_not_Nil)
  next
    case False
    with Cons.prems have 1: "y = c # hd (pieces sep cs)" "tl (pieces sep cs) = []" by auto
    then have "pieces sep cs = [hd (pieces sep cs)]"
      using pieces_not_Nil[of sep cs] by (cases "pieces sep cs") auto
    from Cons.IH[OF this] 1 False show ?thesis by auto
  qed
qed

lemma pieces_split:
  "pieces sep s = f # fs \<Longrightarrow> fs \<noteq> [] \<Longrightarrow> \<exists>t. s = f @ sep # t \<and> pieces sep t = fs \<and> sep \<notin> set f"
proof (induction s arbitrary: f)
  case Nil
  then show ?case by auto
next
  case (Cons c cs)
  show ?case
  proof (cases "c = sep")
    case True
    with Cons.prems show ?thesis by auto
  next
    case False
    with Cons.prems have 1: "f = c # hd (pieces sep cs)" "tl (pieces sep cs) = fs" by auto
    then have "pieces sep cs = hd (pieces sep cs) # fs"
      using pieces_not_Nil[of sep cs] by (cases "pieces sep cs") auto
    from Cons.IH[OF this Cons.prems(2)] obtain t where
      "cs = hd (pieces sep cs) @ sep # t" "pieces sep t = fs" "sep \<notin> set (hd (pieces sep cs))"
      by blast
    with 1 False show ?thesis by auto
  qed
qed

lemma digit_not_dot: "list_all is_digit d \<Longrightarrow> CHR ''.'' \<notin> set d"
  by (auto simp: list_all_iff is_digit_def code_def)

lemma is_digit_is_word: "is_digit c \<Longrightarrow> is_word c"
  by (simp add: is_digit_def is_word_def Let_def)

lemma dotted_numeric_two:
  assumes "d \<noteq> []" "list_all is_digit d" "y \<noteq> []" "list_all is_digit y"
  shows "spec_dotted_numeric (d @ CHR ''.'' # y)"
proof -
  have "pieces CHR ''.'' (d @ CHR ''.'' # y) = [d, y]"
    using assms(2,4) by (simp add: pieces_append_sep pieces_no_sep digit_not_dot)
  then show ?thesis using assms by (simp add: spec_dotted_numeric_def)
qed

lemma dotted_numeric_more:
  assumes "d \<noteq> []" "list_all is_digit d" "spec_dotted_numeric t"
  shows "spec_dotted_numeric (d @ CHR ''.'' # t)"
proof -
  have "pieces CHR ''.'' (d @ CHR ''.'' # t) = d # pieces CHR ''.'' t"
    using assms(2) by (simp add: pieces_append_sep digit_not_dot)
  then show ?thesis using assms by (simp add: spec_dotted_numeric_def)
qed

lemma dotted_numeric_cases:
  assumes "spec_dotted_numeric x"
  shows "\<exists>d t. d \<noteq> [] \<and> list_all is_digit d \<and> x = d @ CHR ''.'' # t \<and>
           ((t \<noteq> [] \<and> list_all is_digit t) \<or> spec_dotted_numeric t)"
proof -
  from assms have len: "2 \<le> length (pieces CHR ''.'' x)"
    and all: "list_all (\<lambda>g. g \<noteq> [] \<and> list_all is_digit g) (pieces CHR ''.'' x)"
    by (simp_all add: spec_dotted_numeric_def)
  obtain f fs where ffs: "pieces CHR ''.'' x = f # fs" "fs \<noteq> []"
  proof (cases "pieces CHR ''.'' x")
    case Nil
    with len show ?thesis by simp
  next
    case (Cons f fs)
    with len have "fs \<noteq> []" by auto
    with Cons that show ?thesis by blast
  qed
  from pieces_split[OF this] obtain t where t: "x = f @ CHR ''.'' # t" "pieces CHR ''.'' t = fs"
    by blast
  from all ffs have f: "f \<noteq> []" "list_all is_digit f"
    and fs: "list_all (\<lambda>g. g \<noteq> [] \<and> list_all is_digit g) fs" by simp_all
  have "(t \<noteq> [] \<and> list_all is_digit t) \<or> spec_dotted_numeric t"
  proof (cases fs)
    case Nil
    with ffs show ?thesis by simp
  next
    case (Cons y ys)
    show ?thesis
    proof (cases ys)
      case Nil
      with Cons t(2) have "pieces CHR ''.'' t = [y]" by simp
      then have "t = y" by (auto dest: pieces_single)
      with fs Cons show ?thesis by simp
    next
      case (Cons z zs)
      with \<open>fs = y # ys\<close> t(2) fs show ?thesis by (simp add: spec_dotted_numeric_def)
    qed
  qed
  with f t(1) show ?thesis by blast
qed

lemma ipaddr_pattern_set:
  "((x, r) \<in> set (ipaddr_pattern s)) = (s = x @ r \<and> spec_dotted_numeric x)"
proof (induction s arbitrary: x r rule: length_induct)
  case (1 s)
  let ?D = "re_plus (re_class is_digit)"
  let ?G = "re_seq ?D (re_char CHR ''.'')"
  have IH: "((x', r') \<in> set (re_seq (re_plus ?G) ?D s')) = (s' = x' @ r' \<and> spec_dotted_numeric x')"
    if "length s' < length s" for s' x' r'
    using 1 that by (simp add: ipaddr_pattern_def)
  show ?case
  proof
    assume "(x, r) \<in> set (ipaddr_pattern s)"
    then obtain g r1 y where g: "(g, r1) \<in> set (re_plus ?G s)" and y: "(y, r) \<in> set (?D r1)"
      and x: "x = g @ y"
      unfolding ipaddr_pattern_def re_seq_set[of x r "re_plus ?G" ?D s] by blast
    from y have y': "y \<noteq> []" "list_all is_digit y" "r1 = y @ r"
      by (simp_all add: re_plus_class_set)
    from g obtain g0 r0 where g0: "(g0, r0) \<in> set (?G s)"
      and alt: "(g, r1) = (g0, r0) \<or>
                (length r0 < length s \<and> (\<exists>g'. (g', r1) \<in> set (re_plus ?G r0) \<and> g = g0 @ g'))"
      unfolding re_plus_set_unfold[of g r1 ?G s] by blast
    from g0 obtain d where d: "d \<noteq> []" "list_all is_digit d" "g0 = d @ ''.''" "s = d @ CHR ''.'' # r0"
      unfolding digit_group_set by blast
    from alt show "s = x @ r \<and> spec_dotted_numeric x"
    proof
      assume "(g, r1) = (g0, r0)"
      with x y' d have "x = d @ CHR ''.'' # y" "s = x @ r" by simp_all
      with d y' show ?thesis by (simp add: dotted_numeric_two)
    next
      assume "length r0 < length s \<and> (\<exists>g'. (g', r1) \<in> set (re_plus ?G r0) \<and> g = g0 @ g')"
      then obtain g' where lt: "length r0 < length s" and g': "(g', r1) \<in> set (re_plus ?G r0)"
        and gg: "g = g0 @ g'" by blast
      from g' y have "(g' @ y, r) \<in> set (re_seq (re_plus ?G) ?D r0)"
        unfolding re_seq_set[of "g' @ y" r "re_plus ?G" ?D r0] by blast
      with IH[OF lt] have "r0 = (g' @ y) @ r" "spec_dotted_numeric (g' @ y)" by simp_all
      moreover have "x = d @ CHR ''.'' # (g' @ y)" using x gg d by simp
      ultimately show ?thesis using d by (simp add: dotted_numeric_more)
    qed
  next
    assume a: "s = x @ r \<and> spec_dotted_numeric x"
    then obtain d t where d: "d \<noteq> []" "list_all is_digit d" "x = d @ CHR ''.'' # t"
      and t: "(t \<noteq> [] \<and> list_all is_digit t) \<or> spec_dotted_numeric t"
      using dotted_numeric_cases[of x] by blast
    from a d have s: "s = d @ CHR ''.'' # (t @ r)" by simp
    with d have g0: "(d @ ''.'', t @ r) \<in> set (?G s)"
      unfolding digit_group_set by blast
    from s have lt: "length (t @ r) < length s" by simp
    from t have "\<exists>g y r1. (g, r1) \<in> set (re_plus ?G s) \<and> (y, r) \<in> set (?D r1) \<and> x = g @ y"
    proof
      assume ty: "t \<noteq> [] \<and> list_all is_digit t"
      have "(d @ ''.'', t @ r) \<in> set (re_plus ?G s)"
        unfolding re_plus_set_unfold[of "d @ ''.''" "t @ r" ?G s] using g0 by blast
      moreover have "(t, r) \<in> set (?D (t @ r))"
        using ty by (simp add: re_plus_class_set)
      moreover have "x = (d @ ''.'') @ t" using d by simp
      ultimately show ?thesis by blast
    next
      assume "spec_dotted_numeric t"
      with IH[OF lt, of t r] have "(t, r) \<in> set (re_seq (re_plus ?G) ?D (t @ r))" by simp
      then obtain g' r1 y where g': "(g', r1) \<in> set (re_plus ?G (t @ r))"
        and y: "(y, r) \<in> set (?D r1)" and ty: "t = g' @ y"
        unfolding re_seq_set[of t r "re_plus ?G" ?D "t @ r"] by blast
      have "((d @ ''.'') @ g', r1) \<in> set (re_plus ?G s)"
        unfolding re_plus_set_unfold[of "(d @ ''.'') @ g'" r1 ?G s] using g0 lt g' by blast
      moreover have "x = ((d @ ''.'') @ g') @ y" using d ty by simp
      ultimately show ?thesis using y by blast
    qed
    then show "(x, r) \<in> set (ipaddr_pattern s)"
      unfolding ipaddr_pattern_def re_seq_set[of x r "re_plus ?G" ?D s] by blast
  qed
qed

lemma dotted_numeric_last_digit:
  assumes "spec_dotted_numeric x"
  shows "x \<noteq> [] \<and> is_digit (last x)"
  using assms
proof (induction x rule: length_induct)
  case (1 x)
  from dotted_numeric_cases[OF 1(2)] obtain d t where d: "d \<noteq> []" "x = d @ CHR ''.'' # t"
    and t: "(t \<noteq> [] \<and> list_all is_digit t) \<or> spec_dotted_numeric t" by blast
  from t have "t \<noteq> [] \<and> is_digit (last t)"
  proof
    assume "t \<noteq> [] \<and> list_all is_digit t"
    then show ?thesis by (auto simp: list_all_iff)
  next
    assume "spec_dotted_numeric t"
    moreover have "length t < length x" using d by simp
    ultimately show ?thesis using 1(1) by blast
  qed
  with d show ?case by simp
qed

lemma ipaddr_re_set:
  "set (ipaddr_re line) =
     {a. \<exists>r. line = a @ r \<and> spec_dotted_numeric a \<and> (r = [] \<or> \<not> is_word (hd r))}"
proof -
  have "set (ipaddr_re line) = {a. \<exists>r. (a, r) \<in> set (ipaddr_pattern line) \<and> word_boundary a r}"
    by (auto simp: ipaddr_re_def)
  also have "\<dots> = {a. \<exists>r. line = a @ r \<and> spec_dotted_numeric a \<and> word_boundary a r}"
    by (simp add: ipaddr_pattern_set)
  also have "\<dots> = {a. \<exists>r. line = a @ r \<and> spec_dotted_numeric a \<and> (r = [] \<or> \<not> is_word (hd r))}"
  proof -
    have "word_boundary a r = (r = [] \<or> \<not> is_word (hd r))" if "spec_dotted_numeric a" for a r
      using dotted_numeric_last_digit[OF that] by (auto simp: word_boundary_def is_digit_is_word)
    then show ?thesis by blast
  qed
  finally show ?thesis .
qed

subsection \<open>The hour of a line\<close>

lemma make_datetime_hour:
  "make_datetime y mo d h mi s off = Inr dt \<Longrightarrow> hour dt = h \<and> 0 \<le> h \<and> h \<le> 23"
  by (auto simp: make_datetime_def split: if_splits)

lemma bind_err_Inr_iff: "(bind_err m f = Inr y) = (\<exists>x. m = Inr x \<and> f x = Inr y)"
  by (cases m) simp_all

lemma strptime_hour:
  assumes "strptime g = Inr dt"
  shows "0 \<le> hour dt \<and> hour dt \<le> 23 \<and>
         (\<exists>d b Y H M S z ms. strptime_re g = ((d, b, Y, H, M, S, z), []) # ms \<and> int_of_str H = Inr (hour dt))"
proof (cases "strptime_re g")
  case Nil
  with assms show ?thesis by (simp add: strptime_def)
next
  case (Cons m ms)
  obtain d b Y H M S z rest where m: "m = ((d, b, Y, H, M, S, z), rest)"
    by (cases m) auto
  from assms Cons m have rest: "rest = []"
    by (auto simp: strptime_def split: if_splits)
  from assms Cons m rest obtain y mo dd h mi s off where
    "int_of_str H = Inr h" "make_datetime y mo dd h mi s off = Inr dt"
    by (auto simp: strptime_def bind_err_Inr_iff)
  with make_datetime_hour[of y mo dd h mi s off dt] Cons m rest show ?thesis by auto
qed

lemma get_hour_range: "get_hour line = Inr h \<Longrightarrow> 0 \<le> h \<and> h \<le> 23"
  by (auto simp: get_hour_def bind_err_Inr_iff split: option.splits dest: strptime_hour)

lemma get_hour_bracketed:
  assumes "CHR ''['' \<notin> set pre" "ts \<noteq> []" "list_all not_newline ts"
    "CHR '']'' \<notin> set ts" "CHR '']'' \<notin> set post"
  shows "get_hour (pre @ CHR ''['' # ts @ CHR '']'' # post) = bind_err (strptime ts) (\<lambda>dt. Inr (hour dt))"
  by (simp add: get_hour_def re_search_bracket[OF assms])

subsection \<open>Scenario A\<close>

lemma strptime_scenario_A:
  "strptime ''15/Sep/2023:00:18:46 +0200'' =
     Inr \<lparr>year = 2023, month = 9, day = 15, hour = 0, minute = 18, second = 46, utcoffset = 7200000000\<rparr>"
  "strptime ''10/Oct/2023:12:55:47 +0200'' =
     Inr \<lparr>year = 2023, month = 10, day = 10, hour = 12, minute = 55, second = 47, utcoffset = 7200000000\<rparr>"
  by code_simp+

lemma get_hour_scenario_A:
  \<open>get_hour (''66.249.66.35 - - [15/Sep/2023:00:18:46 +0200] "GET /x HTTP/1.1" 200 100 "-" "Mozilla/5.0 (compatible; Googlebot/2.1; +http://www.google.com/bot.html)"'' @ e) = Inr 0\<close>
  \<open>get_hour (''147.96.46.52 - - [10/Oct/2023:12:55:47 +0200] "GET /y HTTP/1.1" 404 50 "-" "Mozilla/5.0 (X11; Ubuntu) Firefox/117.0"'' @ e) = Inr 12\<close>
  if "e = [] \<or> e = [CHR 0x0A]" for e
proof -
  have 1: \<open>get_hour (''66.249.66.35 - - '' @ CHR ''['' # ''15/Sep/2023:00:18:46 +0200'' @ CHR '']'' #
      ('' "GET /x HTTP/1.1" 200 100 "-" "Mozilla/5.0 (compatible; Googlebot/2.1; +http://www.google.com/bot.html)"'' @ e))
      = bind_err (strptime ''15/Sep/2023:00:18:46 +0200'') (\<lambda>dt. Inr (hour dt))\<close>
    by (rule get_hour_bracketed) (use that in \<open>auto simp: not_newline_def\<close>)
  have 2: \<open>get_hour (''147.96.46.52 - - '' @ CHR ''['' # ''10/Oct/2023:12:55:47 +0200'' @ CHR '']'' #
      ('' "GET /y HTTP/1.1" 404 50 "-" "Mozilla/5.0 (X11; Ubuntu) Firefox/117.0"'' @ e))
      = bind_err (strptime ''10/Oct/2023:12:55:47 +0200'') (\<lambda>dt. Inr (hour dt))\<close>
    by (rule get_hour_bracketed) (use that in \<open>auto simp: not_newline_def\<close>)
  from 1 show \<open>get_hour (''66.249.66.35 - - [15/Sep/2023:00:18:46 +0200] "GET /x HTTP/1.1" 200 100 "-" "Mozilla/5.0 (compatible; Googlebot/2.1; +http://www.google.com/bot.html)"'' @ e) = Inr 0\<close>
    by (simp add: strptime_scenario_A)
  from 2 show \<open>get_hour (''147.96.46.52 - - [10/Oct/2023:12:55:47 +0200] "GET /y HTTP/1.1" 404 50 "-" "Mozilla/5.0 (X11; Ubuntu) Firefox/117.0"'' @ e) = Inr 12\<close>
    by (simp add: strptime_scenario_A)
qed

lemma get_user_agent_scenario_A:
  \<open>get_user_agent (''66.249.66.35 - - [15/Sep/2023:00:18:46 +0200] "GET /x HTTP/1.1" 200 100 "-" "Mozilla/5.0 (compatible; Googlebot/2.1; +http://www.google.com/bot.html)"'' @ e)
     = Some ''Mozilla/5.0 (compatible; Googlebot/2.1; +http://www.google.com/bot.html)''\<close>
  \<open>get_user_agent (''147.96.46.52 - - [10/Oct/2023:12:55:47 +0200] "GET /y HTTP/1.1" 404 50 "-" "Mozilla/5.0 (X11; Ubuntu) Firefox/117.0"'' @ e)
     = Some ''Mozilla/5.0 (X11; Ubuntu) Firefox/117.0''\<close>
  if "e = [] \<or> e = [CHR 0x0A]" for e
proof -
  have \<open>get_user_agent (''66.249.66.35 - - [15/Sep/2023:00:18:46 +0200] "GET /x HTTP/1.1" 200 100 "-'' @ ''" "'' @
      ''Mozilla/5.0 (compatible; Googlebot/2.1; +http://www.google.com/bot.html)'' @ ''"'' @ e) =
      (if 2 < length ''Mozilla/5.0 (compatible; Googlebot/2.1; +http://www.google.com/bot.html)''
       then Some ''Mozilla/5.0 (compatible; Googlebot/2.1; +http://www.google.com/bot.html)'' else None)\<close>
    by (rule get_user_agent_quoted) (use that in auto)
  then show \<open>get_user_agent (''66.249.66.35 - - [15/Sep/2023:00:18:46 +0200] "GET /x HTTP/1.1" 200 100 "-" "Mozilla/5.0 (compatible; Googlebot/2.1; +http://www.google.com/bot.html)"'' @ e)
     = Some ''Mozilla/5.0 (compatible; Googlebot/2.1; +http://www.google.com/bot.html)''\<close>
    by simp
  have \<open>get_user_agent (''147.96.46.52 - - [10/Oct/2023:12:55:47 +0200] "GET /y HTTP/1.1" 404 50 "-'' @ ''" "'' @
      ''Mozilla/5.0 (X11; Ubuntu) Firefox/117.0'' @ ''"'' @ e) =
      (if 2 < length ''Mozilla/5.0 (X11; Ubuntu) Firefox/117.0''
       then Some ''Mozilla/5.0 (X11; Ubuntu) Firefox/117.0'' else None)\<close>
    by (rule get_user_agent_quoted) (use that in auto)
  then show \<open>get_user_agent (''147.96.46.52 - - [10/Oct/2023:12:55:47 +0200] "GET /y HTTP/1.1" 404 50 "-" "Mozilla/5.0 (X11; Ubuntu) Firefox/117.0"'' @ e)
     = Some ''Mozilla/5.0 (X11; Ubuntu) Firefox/117.0''\<close>
    by simp
qed

lemma is_bot_scenario_A:
  "is_bot (Some ''Mozilla/5.0 (compatible; Googlebot/2.1; +http://www.google.com/bot.html)'')"
  "\<not> is_bot (Some ''Mozilla/5.0 (X11; Ubuntu) Firefox/117.0'')"
  by code_simp+

lemma get_ipaddr_scenario_A:
  \<open>get_ipaddr ''147.96.46.52 - - [10/Oct/2023:12:55:47 +0200] "GET /y HTTP/1.1" 404 50 "-" "Mozilla/5.0 (X11; Ubuntu) Firefox/117.0"''
     = Inr ''147.96.46.52''\<close>
  \<open>get_ipaddr ''147.96.46.52 - - [10/Oct/2023:12:55:47 +0200] "GET /y HTTP/1.1" 404 50 "-" "Mozilla/5.0 (X11; Ubuntu) Firefox/117.0"\<newline>''
     = Inr ''147.96.46.52''\<close>
  by code_simp+

text \<open>
  C1. Scenario A: on the file that holds the Googlebot line of 15 September, hour 00, and
  then the Firefox line of 10 October, hour 12, \<open>histbyhour\<close> returns the dictionary
  \<open>{0: 1, 12: 1}\<close> and \<open>ipaddreses\<close> returns the set \<open>{147.96.46.52}\<close>. It is stated for
  the two lines as they are written, and for the two lines each ended by the newline that
  iterating over a file leaves on them.
\<close>

theorem scenario_A_end_to_end:
  \<open>histbyhour [''access.log'' \<mapsto>
       [''66.249.66.35 - - [15/Sep/2023:00:18:46 +0200] "GET /x HTTP/1.1" 200 100 "-" "Mozilla/5.0 (compatible; Googlebot/2.1; +http://www.google.com/bot.html)"'',
        ''147.96.46.52 - - [10/Oct/2023:12:55:47 +0200] "GET /y HTTP/1.1" 404 50 "-" "Mozilla/5.0 (X11; Ubuntu) Firefox/117.0"'']]
     ''access.log'' = Inr [0 \<mapsto> 1, 12 \<mapsto> 1] \<and>
   ipaddreses [''access.log'' \<mapsto>
       [''66.249.66.35 - - [15/Sep/2023:00:18:46 +0200] "GET /x HTTP/1.1" 200 100 "-" "Mozilla/5.0 (compatible; Googlebot/2.1; +http://www.google.com/bot.html)"'',
        ''147.96.46.52 - - [10/Oct/2023:12:55:47 +0200] "GET /y HTTP/1.1" 404 50 "-" "Mozilla/5.0 (X11; Ubuntu) Firefox/117.0"'']]
     ''access.log'' = Inr {''147.96.46.52''} \<and>
   histbyhour [''access.log'' \<mapsto>
       [''66.249.66.35 - - [15/Sep/2023:00:18:46 +0200] "GET /x HTTP/1.1" 200 100 "-" "Mozilla/5.0 (compatible; Googlebot/2.1; +http://www.google.com/bot.html)"\<newline>'',
        ''147.96.46.52 - - [10/Oct/2023:12:55:47 +0200] "GET /y HTTP/1.1" 404 50 "-" "Mozilla/5.0 (X11; Ubuntu) Firefox/117.0"\<newline>'']]
     ''access.log'' = Inr [0 \<mapsto> 1, 12 \<mapsto> 1] \<and>
   ipaddreses [''access.log'' \<mapsto>
       [''66.249.66.35 - - [15/Sep/2023:00:18:46 +0200] "GET /x HTTP/1.1" 200 100 "-" "Mozilla/5.0 (compatible; Googlebot/2.1; +http://www.google.com/bot.html)"\<newline>'',
        ''147.96.46.52 - - [10/Oct/2023:12:55:47 +0200] "GET /y HTTP/1.1" 404 50 "-" "Mozilla/5.0 (X11; Ubuntu) Firefox/117.0"\<newline>'']]
     ''access.log'' = Inr {''147.96.46.52''}\<close>
proof -
  note h0 = get_hour_scenario_A[of "[]", simplified]
  note h1 = get_hour_scenario_A[of "[CHR 0x0A]", simplified]
  note u0 = get_user_agent_scenario_A[of "[]", simplified]
  note u1 = get_user_agent_scenario_A[of "[CHR 0x0A]", simplified]
  have a: \<open>histbyhour [''access.log'' \<mapsto>
       [''66.249.66.35 - - [15/Sep/2023:00:18:46 +0200] "GET /x HTTP/1.1" 200 100 "-" "Mozilla/5.0 (compatible; Googlebot/2.1; +http://www.google.com/bot.html)"'',
        ''147.96.46.52 - - [10/Oct/2023:12:55:47 +0200] "GET /y HTTP/1.1" 404 50 "-" "Mozilla/5.0 (X11; Ubuntu) Firefox/117.0"'']]
     ''access.log'' = Inr [0 \<mapsto> 1, 12 \<mapsto> 1]\<close>
    by (simp add: histbyhour_def h0)
  have b: \<open>ipaddreses [''access.log'' \<mapsto>
       [''66.249.66.35 - - [15/Sep/2023:00:18:46 +0200] "GET /x HTTP/1.1" 200 100 "-" "Mozilla/5.0 (compatible; Googlebot/2.1; +http://www.google.com/bot.html)"'',
        ''147.96.46.52 - - [10/Oct/2023:12:55:47 +0200] "GET /y HTTP/1.1" 404 50 "-" "Mozilla/5.0 (X11; Ubuntu) Firefox/117.0"'']]
     ''access.log'' = Inr {''147.96.46.52''}\<close>
    by (simp add: ipaddreses_def u0 is_bot_scenario_A get_ipaddr_scenario_A del: is_bot.simps)
  have c: \<open>histbyhour [''access.log'' \<mapsto>
       [''66.249.66.35 - - [15/Sep/2023:00:18:46 +0200] "GET /x HTTP/1.1" 200 100 "-" "Mozilla/5.0 (compatible; Googlebot/2.1; +http://www.google.com/bot.html)"\<newline>'',
        ''147.96.46.52 - - [10/Oct/2023:12:55:47 +0200] "GET /y HTTP/1.1" 404 50 "-" "Mozilla/5.0 (X11; Ubuntu) Firefox/117.0"\<newline>'']]
     ''access.log'' = Inr [0 \<mapsto> 1, 12 \<mapsto> 1]\<close>
    by (simp add: histbyhour_def h1)
  have d: \<open>ipaddreses [''access.log'' \<mapsto>
       [''66.249.66.35 - - [15/Sep/2023:00:18:46 +0200] "GET /x HTTP/1.1" 200 100 "-" "Mozilla/5.0 (compatible; Googlebot/2.1; +http://www.google.com/bot.html)"\<newline>'',
        ''147.96.46.52 - - [10/Oct/2023:12:55:47 +0200] "GET /y HTTP/1.1" 404 50 "-" "Mozilla/5.0 (X11; Ubuntu) Firefox/117.0"\<newline>'']]
     ''access.log'' = Inr {''147.96.46.52''}\<close>
    by (simp add: ipaddreses_def u1 is_bot_scenario_A get_ipaddr_scenario_A del: is_bot.simps)
  from a b c d show ?thesis by (intro conjI)
qed

subsection \<open>Two short lines, evaluated\<close>

lemma human_line_facts:
  \<open>get_hour ''147.96.46.52 - - [10/Oct/2023:12:55:47 +0200] "GET /y" 404 50 "-" "Firefox/117.0"'' = Inr 12\<close>
  \<open>get_user_agent ''147.96.46.52 - - [10/Oct/2023:12:55:47 +0200] "GET /y" 404 50 "-" "Firefox/117.0"'' = Some ''Firefox/117.0''\<close>
  \<open>get_ipaddr ''147.96.46.52 - - [10/Oct/2023:12:55:47 +0200] "GET /y" 404 50 "-" "Firefox/117.0"'' = Inr ''147.96.46.52''\<close>
  \<open>\<not> is_bot (Some ''Firefox/117.0'')\<close>
proof -
  have \<open>get_hour (''147.96.46.52 - - '' @ CHR ''['' # ''10/Oct/2023:12:55:47 +0200'' @ CHR '']'' #
      '' "GET /y" 404 50 "-" "Firefox/117.0"'')
      = bind_err (strptime ''10/Oct/2023:12:55:47 +0200'') (\<lambda>dt. Inr (hour dt))\<close>
    by (rule get_hour_bracketed) (auto simp: not_newline_def)
  then show \<open>get_hour ''147.96.46.52 - - [10/Oct/2023:12:55:47 +0200] "GET /y" 404 50 "-" "Firefox/117.0"'' = Inr 12\<close>
    by (simp add: strptime_scenario_A)
  show \<open>get_user_agent ''147.96.46.52 - - [10/Oct/2023:12:55:47 +0200] "GET /y" 404 50 "-" "Firefox/117.0"'' = Some ''Firefox/117.0''\<close>
    by code_simp
  show \<open>get_ipaddr ''147.96.46.52 - - [10/Oct/2023:12:55:47 +0200] "GET /y" 404 50 "-" "Firefox/117.0"'' = Inr ''147.96.46.52''\<close>
    by code_simp
  show \<open>\<not> is_bot (Some ''Firefox/117.0'')\<close>
    by code_simp
qed

lemma bot_line_facts:
  \<open>get_hour ''crawler - - [15/Sep/2023:00:18:46 +0200] "GET /x" 200 100 "-" "Googlebot/2.1"'' = Inr 0\<close>
  \<open>get_user_agent ''crawler - - [15/Sep/2023:00:18:46 +0200] "GET /x" 200 100 "-" "Googlebot/2.1"'' = Some ''Googlebot/2.1''\<close>
  \<open>get_ipaddr ''crawler - - [15/Sep/2023:00:18:46 +0200] "GET /x" 200 100 "-" "Googlebot/2.1"'' = Inl AttributeError\<close>
  \<open>is_bot (Some ''Googlebot/2.1'')\<close>
proof -
  have \<open>get_hour (''crawler - - '' @ CHR ''['' # ''15/Sep/2023:00:18:46 +0200'' @ CHR '']'' #
      '' "GET /x" 200 100 "-" "Googlebot/2.1"'')
      = bind_err (strptime ''15/Sep/2023:00:18:46 +0200'') (\<lambda>dt. Inr (hour dt))\<close>
    by (rule get_hour_bracketed) (auto simp: not_newline_def)
  then show \<open>get_hour ''crawler - - [15/Sep/2023:00:18:46 +0200] "GET /x" 200 100 "-" "Googlebot/2.1"'' = Inr 0\<close>
    by (simp add: strptime_scenario_A)
  show \<open>get_user_agent ''crawler - - [15/Sep/2023:00:18:46 +0200] "GET /x" 200 100 "-" "Googlebot/2.1"'' = Some ''Googlebot/2.1''\<close>
    by code_simp
  show \<open>get_ipaddr ''crawler - - [15/Sep/2023:00:18:46 +0200] "GET /x" 200 100 "-" "Googlebot/2.1"'' = Inl AttributeError\<close>
    by code_simp
  show \<open>is_bot (Some ''Googlebot/2.1'')\<close>
    by code_simp
qed

subsection \<open>Failure of the histogram\<close>

lemma re_search_no_bracket:
  assumes "CHR ''['' \<notin> set line \<or> CHR '']'' \<notin> set line"
  shows "re_search bracket_re line = None"
proof -
  have "bracket_re t = []" if "suffix t line" for t
  proof (rule bracket_re_empty)
    from that have "set t \<subseteq> set line" by (auto simp: suffix_def)
    with assms show "CHR ''['' \<notin> set t \<or> CHR '']'' \<notin> set t" by blast
  qed
  then show ?thesis by (rule re_search_None)
qed

lemma get_hour_fails_iff:
  "(\<exists>e. get_hour M = Inl e) =
   (re_search bracket_re M = None \<or> (\<exists>g e. re_search bracket_re M = Some g \<and> strptime g = Inl e))"
proof (cases "re_search bracket_re M")
  case None
  then show ?thesis by (simp add: get_hour_def)
next
  case (Some g)
  then show ?thesis by (cases "strptime g") (simp_all add: get_hour_def)
qed

text \<open>
  C7. When \<open>get_hour\<close> fails on a line of the file, \<open>histbyhour\<close> fails for the whole
  file: it returns an error and no dictionary, wherever the line stands, and the error is
  the one that \<open>get_hour\<close> raises on the first line it fails on. \<open>get_hour\<close> fails
  exactly on the lines in which the pattern finds no bracketed text (AttributeError), as in
  every line without an opening or without a closing bracket, and on the lines whose
  bracketed text \<open>strptime\<close> refuses (its error).
\<close>

theorem histbyhour_fails_on_bad_line:
  assumes "fs filename = Some lines" "L \<in> set lines" "get_hour L = Inl e"
  shows "(\<exists>e'. histbyhour fs filename = Inl e') \<and>
         (\<forall>pre post. lines = pre @ L # post \<and> (\<forall>M \<in> set pre. \<exists>h. get_hour M = Inr h) \<longrightarrow>
              histbyhour fs filename = Inl e) \<and>
         (\<forall>M. (\<exists>e'. get_hour M = Inl e') =
              (re_search bracket_re M = None \<or>
               (\<exists>g e'. re_search bracket_re M = Some g \<and> strptime g = Inl e'))) \<and>
         (\<forall>M. re_search bracket_re M = None \<longrightarrow> get_hour M = Inl AttributeError) \<and>
         (\<forall>M. CHR ''['' \<notin> set M \<or> CHR '']'' \<notin> set M \<longrightarrow> re_search bracket_re M = None)"
proof -
  from assms(2,3) have "\<exists>e'. histbyhour_loop Map.empty lines = Inl e'"
    by (rule histbyhour_loop_fails)
  then have 1: "\<exists>e'. histbyhour fs filename = Inl e'"
    using assms(1) by (simp add: histbyhour_def)
  have 2: "histbyhour fs filename = Inl e"
    if "lines = pre @ L # post \<and> (\<forall>M \<in> set pre. \<exists>h. get_hour M = Inr h)" for pre post
  proof -
    from that have "histbyhour_loop Map.empty (pre @ L # post) = Inl e"
      using assms(3) by (simp add: histbyhour_loop_first_error)
    with that assms(1) show ?thesis by (simp add: histbyhour_def)
  qed
  have 4: "get_hour M = Inl AttributeError" if "re_search bracket_re M = None" for M
    using that by (simp add: get_hour_def)
  have 5: "re_search bracket_re M = None" if "CHR ''['' \<notin> set M \<or> CHR '']'' \<notin> set M" for M
    using that by (rule re_search_no_bracket)
  from 1 2 4 5 get_hour_fails_iff show ?thesis by (intro conjI allI impI)
qed

theorem histbyhour_fails_on_bad_line_witness:
  \<open>CHR ''['' \<in> set ''1.2.3.4 - - [] x'' \<and> CHR '']'' \<in> set ''1.2.3.4 - - [] x'' \<and>
   get_hour ''1.2.3.4 - - [] x'' = Inl AttributeError \<and>
   get_hour ''147.96.46.52 - - [10/Oct/2023:12:55:47 +0200] "GET /y" 404 50 "-" "Firefox/117.0"'' = Inr 12 \<and>
   histbyhour [''access.log'' \<mapsto>
      [''147.96.46.52 - - [10/Oct/2023:12:55:47 +0200] "GET /y" 404 50 "-" "Firefox/117.0"'',
       ''1.2.3.4 - - [] x'']] ''access.log'' = Inl AttributeError\<close>
proof -
  let ?good = \<open>''147.96.46.52 - - [10/Oct/2023:12:55:47 +0200] "GET /y" 404 50 "-" "Firefox/117.0"''\<close>
  let ?bad = \<open>''1.2.3.4 - - [] x''\<close>
  let ?fs = "[''access.log'' \<mapsto> [?good, ?bad]]"
  have 1: "?fs ''access.log'' = Some [?good, ?bad]" by simp
  have 2: "?bad \<in> set [?good, ?bad]" by simp
  have n: "re_search bracket_re ?bad = None" by code_simp
  then have 3: "get_hour ?bad = Inl AttributeError" by (simp add: get_hour_def)
  have 4: "[?good, ?bad] = [?good] @ ?bad # [] \<and> (\<forall>M \<in> set [?good]. \<exists>h. get_hour M = Inr h)"
    by (simp add: human_line_facts)
  note inst = histbyhour_fails_on_bad_line[of ?fs "''access.log''" "[?good, ?bad]" ?bad AttributeError,
      OF 1 2 3]
  have "histbyhour ?fs ''access.log'' = Inl AttributeError"
    by (rule inst[THEN conjunct2, THEN conjunct1, rule_format, OF 4])
  with 3 show ?thesis by (simp add: human_line_facts)
qed

subsection \<open>The order of the lines\<close>

text \<open>
  C8. Take two files whose lines are the same up to their order. When \<open>get_hour\<close> succeeds
  on every line, \<open>histbyhour\<close> returns the same dictionary for both (the same keys with
  the same counts); when \<open>get_ipaddr\<close> succeeds on every line that is not a bot's,
  \<open>ipaddreses\<close> returns the same set for both.
\<close>

theorem aggregates_order_independent:
  assumes "fs filename = Some lines" "fs' filename' = Some lines'" "mset lines' = mset lines"
  shows "((\<forall>L \<in> set lines. \<exists>h. get_hour L = Inr h) \<longrightarrow>
            (\<exists>m. histbyhour fs filename = Inr m \<and> histbyhour fs' filename' = Inr m)) \<and>
         ((\<forall>L \<in> set lines. \<not> is_bot (get_user_agent L) \<longrightarrow> (\<exists>a. get_ipaddr L = Inr a)) \<longrightarrow>
            (\<exists>S. ipaddreses fs filename = Inr S \<and> ipaddreses fs' filename' = Inr S))"
proof (intro conjI impI)
  assume ok: "\<forall>L \<in> set lines. \<exists>h. get_hour L = Inr h"
  have "histbyhour_loop Map.empty lines' = histbyhour_loop Map.empty lines"
    using assms(3) ok by (rule histbyhour_loop_perm)
  moreover have "\<exists>m. histbyhour_loop Map.empty lines = Inr m"
    by (simp add: histbyhour_loop_counts[OF ok])
  ultimately show "\<exists>m. histbyhour fs filename = Inr m \<and> histbyhour fs' filename' = Inr m"
    using assms(1,2) by (auto simp: histbyhour_def)
next
  assume ok: "\<forall>L \<in> set lines. \<not> is_bot (get_user_agent L) \<longrightarrow> (\<exists>a. get_ipaddr L = Inr a)"
  have eq: "set lines' = set lines" using assms(3) by (rule mset_eq_setD)
  then have ok': "\<forall>L \<in> set lines'. \<not> is_bot (get_user_agent L) \<longrightarrow> (\<exists>a. get_ipaddr L = Inr a)"
    using ok by simp
  have "ipaddreses_loop {} lines' = ipaddreses_loop {} lines"
    by (simp only: ipaddreses_loop_set[OF ok] ipaddreses_loop_set[OF ok'] eq)
  moreover have "\<exists>S. ipaddreses_loop {} lines = Inr S"
    by (simp add: ipaddreses_loop_set[OF ok])
  ultimately show "\<exists>S. ipaddreses fs filename = Inr S \<and> ipaddreses fs' filename' = Inr S"
    using assms(1,2) by (auto simp: ipaddreses_def)
qed

theorem aggregates_order_independent_witness:
  \<open>mset [''crawler - - [15/Sep/2023:00:18:46 +0200] "GET /x" 200 100 "-" "Googlebot/2.1"'',
          ''147.96.46.52 - - [10/Oct/2023:12:55:47 +0200] "GET /y" 404 50 "-" "Firefox/117.0"''] =
   mset [''147.96.46.52 - - [10/Oct/2023:12:55:47 +0200] "GET /y" 404 50 "-" "Firefox/117.0"'',
         ''crawler - - [15/Sep/2023:00:18:46 +0200] "GET /x" 200 100 "-" "Googlebot/2.1"''] \<and>
   (\<exists>m. histbyhour [''a.log'' \<mapsto>
            [''147.96.46.52 - - [10/Oct/2023:12:55:47 +0200] "GET /y" 404 50 "-" "Firefox/117.0"'',
             ''crawler - - [15/Sep/2023:00:18:46 +0200] "GET /x" 200 100 "-" "Googlebot/2.1"'']] ''a.log'' = Inr m \<and>
        histbyhour [''b.log'' \<mapsto>
            [''crawler - - [15/Sep/2023:00:18:46 +0200] "GET /x" 200 100 "-" "Googlebot/2.1"'',
             ''147.96.46.52 - - [10/Oct/2023:12:55:47 +0200] "GET /y" 404 50 "-" "Firefox/117.0"'']] ''b.log'' = Inr m) \<and>
   (\<exists>S. ipaddreses [''a.log'' \<mapsto>
            [''147.96.46.52 - - [10/Oct/2023:12:55:47 +0200] "GET /y" 404 50 "-" "Firefox/117.0"'',
             ''crawler - - [15/Sep/2023:00:18:46 +0200] "GET /x" 200 100 "-" "Googlebot/2.1"'']] ''a.log'' = Inr S \<and>
        ipaddreses [''b.log'' \<mapsto>
            [''crawler - - [15/Sep/2023:00:18:46 +0200] "GET /x" 200 100 "-" "Googlebot/2.1"'',
             ''147.96.46.52 - - [10/Oct/2023:12:55:47 +0200] "GET /y" 404 50 "-" "Firefox/117.0"'']] ''b.log'' = Inr S)\<close>
proof -
  let ?h = \<open>''147.96.46.52 - - [10/Oct/2023:12:55:47 +0200] "GET /y" 404 50 "-" "Firefox/117.0"''\<close>
  let ?b = \<open>''crawler - - [15/Sep/2023:00:18:46 +0200] "GET /x" 200 100 "-" "Googlebot/2.1"''\<close>
  have 1: "[''a.log'' \<mapsto> [?h, ?b]] ''a.log'' = Some [?h, ?b]" by simp
  have 2: "[''b.log'' \<mapsto> [?b, ?h]] ''b.log'' = Some [?b, ?h]" by simp
  have 3: "mset [?b, ?h] = mset [?h, ?b]" by (simp add: add_mset_commute)
  have 4: "\<forall>L \<in> set [?h, ?b]. \<exists>h. get_hour L = Inr h"
    by (simp add: human_line_facts bot_line_facts)
  have 5: "\<forall>L \<in> set [?h, ?b]. \<not> is_bot (get_user_agent L) \<longrightarrow> (\<exists>a. get_ipaddr L = Inr a)"
    by (simp add: human_line_facts bot_line_facts del: is_bot.simps)
  from aggregates_order_independent[of "[''a.log'' \<mapsto> [?h, ?b]]" "''a.log''" "[?h, ?b]"
      "[''b.log'' \<mapsto> [?b, ?h]]" "''b.log''" "[?b, ?h]", OF 1 2 3] 3 4 5
  show ?thesis by blast
qed

subsection \<open>The set of addresses\<close>

text \<open>
  C2, as the specification words it, fails in its clause on the empty final segment: in
  the line \<open>1.2.3.4 robot ""\<close> the content between the final pair of double quotes is
  empty and \<open>get_ipaddr\<close> succeeds, but no double quote followed by a blank comes before
  the segment, so \<open>get_user_agent\<close> returns the whole stripped line and not None; the
  line counts as a bot's and its address is not in the set.
\<close>

theorem ipaddreses_empty_final_segment_counterexample:
  \<open>spec_final_quoted ''1.2.3.4 robot ""'' = Some [] \<and>
   get_ipaddr ''1.2.3.4 robot ""'' = Inr ''1.2.3.4'' \<and>
   get_user_agent ''1.2.3.4 robot ""'' = Some ''1.2.3.4 robot'' \<and>
   is_bot (get_user_agent ''1.2.3.4 robot ""'') = True \<and>
   ipaddreses [''access.log'' \<mapsto> [''1.2.3.4 robot ""'']] ''access.log'' = Inr {}\<close>
proof -
  have 1: \<open>spec_final_quoted ''1.2.3.4 robot ""'' = Some []\<close> by code_simp
  have 2: \<open>get_ipaddr ''1.2.3.4 robot ""'' = Inr ''1.2.3.4''\<close> by code_simp
  have 3: \<open>get_user_agent ''1.2.3.4 robot ""'' = Some ''1.2.3.4 robot''\<close> by code_simp
  have 4: \<open>is_bot (Some ''1.2.3.4 robot'')\<close> by code_simp
  have 5: \<open>ipaddreses [''access.log'' \<mapsto> [''1.2.3.4 robot ""'']] ''access.log'' = Inr {}\<close>
    by (simp add: ipaddreses_def 3 4 del: is_bot.simps(2))
  from 1 2 3 4 5 show ?thesis by (simp del: is_bot.simps(2))
qed

text \<open>
  C2, amended. When \<open>get_ipaddr\<close> succeeds on every line of the file that is not a bot's,
  \<open>ipaddreses\<close> returns exactly the set of the addresses of the lines that are not a
  bot's. A line for which \<open>get_user_agent\<close> gives None is not a bot's, so its address is
  in the set; a line that ends with an empty quoted field standing after the closing quote
  of the field before it and a blank, as the last field of a line of the log does, with or
  without a newline after it, is such a line. A further line with an address that is
  already in the set leaves the result as it is.
\<close>

theorem ipaddreses_collects_non_bot:
  assumes "fs filename = Some lines"
    "\<forall>L \<in> set lines. \<not> is_bot (get_user_agent L) \<longrightarrow> (\<exists>a. get_ipaddr L = Inr a)"
  shows \<open>ipaddreses fs filename =
           Inr {a. \<exists>L \<in> set lines. \<not> is_bot (get_user_agent L) \<and> get_ipaddr L = Inr a} \<and>
         (\<forall>L \<in> set lines. get_user_agent L = None \<longrightarrow>
            \<not> is_bot (get_user_agent L) \<and>
            (\<exists>a S. get_ipaddr L = Inr a \<and> ipaddreses fs filename = Inr S \<and> a \<in> S)) \<and>
         (\<forall>pre. get_user_agent (pre @ ''" ""'') = None \<and>
                get_user_agent (pre @ ''" ""\<newline>'') = None) \<and>
         (\<forall>L' a. \<not> is_bot (get_user_agent L') \<and> get_ipaddr L' = Inr a \<and>
                 (\<exists>L \<in> set lines. \<not> is_bot (get_user_agent L) \<and> get_ipaddr L = Inr a) \<longrightarrow>
                 ipaddreses (fs(filename \<mapsto> lines @ [L'])) filename = ipaddreses fs filename)\<close>
proof (intro conjI allI ballI impI)
  show res: "ipaddreses fs filename =
      Inr {a. \<exists>L \<in> set lines. \<not> is_bot (get_user_agent L) \<and> get_ipaddr L = Inr a}"
    using assms(1) ipaddreses_loop_set[OF assms(2), of "{}"] by (simp add: ipaddreses_def)
  {
    fix L assume L: "L \<in> set lines" "get_user_agent L = None"
    then show nb: "\<not> is_bot (get_user_agent L)" by simp
    with L(1) assms(2) obtain a where "get_ipaddr L = Inr a" by blast
    with res L(1) nb
    show "\<exists>a S. get_ipaddr L = Inr a \<and> ipaddreses fs filename = Inr S \<and> a \<in> S" by blast
  }
  {
    fix pre
    have \<open>get_user_agent (pre @ ''" "'' @ [] @ ''"'' @ []) = (if 2 < length ([] :: string) then Some [] else None)\<close>
      by (rule get_user_agent_quoted) simp_all
    then show \<open>get_user_agent (pre @ ''" ""'') = None\<close> by simp
    have \<open>get_user_agent (pre @ ''" "'' @ [] @ ''"'' @ [CHR 0x0A]) = (if 2 < length ([] :: string) then Some [] else None)\<close>
      by (rule get_user_agent_quoted) simp_all
    then show \<open>get_user_agent (pre @ ''" ""\<newline>'') = None\<close> by simp
  }
  {
    fix L' a
    assume dup: "\<not> is_bot (get_user_agent L') \<and> get_ipaddr L' = Inr a \<and>
                 (\<exists>L \<in> set lines. \<not> is_bot (get_user_agent L) \<and> get_ipaddr L = Inr a)"
    have ok': "\<forall>L \<in> set (lines @ [L']). \<not> is_bot (get_user_agent L) \<longrightarrow> (\<exists>a. get_ipaddr L = Inr a)"
      using assms(2) dup by auto
    have "{b. \<exists>L \<in> set (lines @ [L']). \<not> is_bot (get_user_agent L) \<and> get_ipaddr L = Inr b} =
          {b. \<exists>L \<in> set lines. \<not> is_bot (get_user_agent L) \<and> get_ipaddr L = Inr b}"
      using dup by auto
    then have "ipaddreses_loop {} (lines @ [L']) = ipaddreses_loop {} lines"
      by (simp only: ipaddreses_loop_set[OF ok'] ipaddreses_loop_set[OF assms(2)])
    then show "ipaddreses (fs(filename \<mapsto> lines @ [L'])) filename = ipaddreses fs filename"
      using assms(1) by (simp add: ipaddreses_def)
  }
qed

lemma empty_agent_line_facts:
  \<open>get_user_agent ''9.9.9.9 - - [10/Oct/2023:12:55:47 +0200] "GET /" 200 1 "-" ""'' = None\<close>
  \<open>get_ipaddr ''9.9.9.9 - - [10/Oct/2023:12:55:47 +0200] "GET /" 200 1 "-" ""'' = Inr ''9.9.9.9''\<close>
  by code_simp+

theorem ipaddreses_collects_non_bot_witness:
  \<open>get_user_agent ''9.9.9.9 - - [10/Oct/2023:12:55:47 +0200] "GET /" 200 1 "-" ""'' = None \<and>
   is_bot (get_user_agent ''crawler - - [15/Sep/2023:00:18:46 +0200] "GET /x" 200 100 "-" "Googlebot/2.1"'') \<and>
   ipaddreses [''access.log'' \<mapsto>
      [''147.96.46.52 - - [10/Oct/2023:12:55:47 +0200] "GET /y" 404 50 "-" "Firefox/117.0"'',
       ''crawler - - [15/Sep/2023:00:18:46 +0200] "GET /x" 200 100 "-" "Googlebot/2.1"'',
       ''9.9.9.9 - - [10/Oct/2023:12:55:47 +0200] "GET /" 200 1 "-" ""'']] ''access.log'' =
     Inr {''147.96.46.52'', ''9.9.9.9''} \<and>
   ipaddreses [''access.log'' \<mapsto>
      [''147.96.46.52 - - [10/Oct/2023:12:55:47 +0200] "GET /y" 404 50 "-" "Firefox/117.0"'',
       ''crawler - - [15/Sep/2023:00:18:46 +0200] "GET /x" 200 100 "-" "Googlebot/2.1"'',
       ''9.9.9.9 - - [10/Oct/2023:12:55:47 +0200] "GET /" 200 1 "-" ""'',
       ''147.96.46.52 - - [10/Oct/2023:12:55:47 +0200] "GET /y" 404 50 "-" "Firefox/117.0"'']] ''access.log'' =
     Inr {''147.96.46.52'', ''9.9.9.9''}\<close>
proof -
  let ?h = \<open>''147.96.46.52 - - [10/Oct/2023:12:55:47 +0200] "GET /y" 404 50 "-" "Firefox/117.0"''\<close>
  let ?b = \<open>''crawler - - [15/Sep/2023:00:18:46 +0200] "GET /x" 200 100 "-" "Googlebot/2.1"''\<close>
  let ?n = \<open>''9.9.9.9 - - [10/Oct/2023:12:55:47 +0200] "GET /" 200 1 "-" ""''\<close>
  let ?fs = "[''access.log'' \<mapsto> [?h, ?b, ?n]]"
  note facts = human_line_facts bot_line_facts empty_agent_line_facts
  have 1: "?fs ''access.log'' = Some [?h, ?b, ?n]" by simp
  have 2: "\<forall>L \<in> set [?h, ?b, ?n]. \<not> is_bot (get_user_agent L) \<longrightarrow> (\<exists>a. get_ipaddr L = Inr a)"
    by (simp add: facts del: is_bot.simps(2))
  note inst = ipaddreses_collects_non_bot[of ?fs "''access.log''" "[?h, ?b, ?n]", OF 1 2]
  have set_eq: "{a. \<exists>L \<in> set [?h, ?b, ?n]. \<not> is_bot (get_user_agent L) \<and> get_ipaddr L = Inr a} =
        {''147.96.46.52'', ''9.9.9.9''}"
    by (auto simp: facts simp del: is_bot.simps(2))
  from inst[THEN conjunct1] have "ipaddreses ?fs ''access.log'' =
      Inr {a. \<exists>L \<in> set [?h, ?b, ?n]. \<not> is_bot (get_user_agent L) \<and> get_ipaddr L = Inr a}" .
  then have r1: "ipaddreses ?fs ''access.log'' = Inr {''147.96.46.52'', ''9.9.9.9''}"
    by (simp only: set_eq)
  have dup: "\<not> is_bot (get_user_agent ?h) \<and> get_ipaddr ?h = Inr ''147.96.46.52'' \<and>
       (\<exists>L \<in> set [?h, ?b, ?n]. \<not> is_bot (get_user_agent L) \<and> get_ipaddr L = Inr ''147.96.46.52'')"
    by (simp add: facts del: is_bot.simps(2))
  have "ipaddreses (?fs(''access.log'' \<mapsto> [?h, ?b, ?n] @ [?h])) ''access.log'' =
        ipaddreses ?fs ''access.log''"
    by (rule inst[THEN conjunct2, THEN conjunct2, THEN conjunct2, rule_format, OF dup])
  then have r2: "ipaddreses [''access.log'' \<mapsto> [?h, ?b, ?n, ?h]] ''access.log'' =
                 Inr {''147.96.46.52'', ''9.9.9.9''}"
    using r1 by simp
  have "is_bot (get_user_agent ?b)" by (simp add: facts del: is_bot.simps(2))
  with r1 r2 show ?thesis by (simp add: facts del: is_bot.simps(2))
qed

text \<open>
  C9. \<open>ipaddreses\<close> calls \<open>get_ipaddr\<close> only on the lines that are not a bot's. A line
  whose user agent is a bot's is passed over, whatever \<open>get_ipaddr\<close> would do on it: the
  result is the one of the file without the line, so a bot's line that does not start
  with an address does not make the function fail.
\<close>

theorem ipaddreses_skips_bot_lines:
  assumes "fs filename = Some (pre @ L # post)" "is_bot (get_user_agent L)"
  shows "ipaddreses fs filename = ipaddreses (fs(filename \<mapsto> pre @ post)) filename \<and>
         ((\<forall>M \<in> set (pre @ post). \<not> is_bot (get_user_agent M) \<longrightarrow> (\<exists>a. get_ipaddr M = Inr a)) \<longrightarrow>
            (\<exists>S. ipaddreses fs filename = Inr S))"
proof -
  have eq: "ipaddreses_loop {} (pre @ L # post) = ipaddreses_loop {} (pre @ post)"
    using assms(2) by (rule ipaddreses_loop_skips_bot)
  then have 1: "ipaddreses fs filename = ipaddreses (fs(filename \<mapsto> pre @ post)) filename"
    using assms(1) by (simp add: ipaddreses_def)
  have "\<exists>S. ipaddreses fs filename = Inr S"
    if "\<forall>M \<in> set (pre @ post). \<not> is_bot (get_user_agent M) \<longrightarrow> (\<exists>a. get_ipaddr M = Inr a)"
    using assms(1) eq ipaddreses_loop_set[OF that, of "{}"] by (simp add: ipaddreses_def)
  with 1 show ?thesis by blast
qed

theorem ipaddreses_skips_bot_lines_witness:
  \<open>is_bot (get_user_agent ''crawler - - [15/Sep/2023:00:18:46 +0200] "GET /x" 200 100 "-" "Googlebot/2.1"'') \<and>
   get_ipaddr ''crawler - - [15/Sep/2023:00:18:46 +0200] "GET /x" 200 100 "-" "Googlebot/2.1"'' = Inl AttributeError \<and>
   ipaddreses [''access.log'' \<mapsto>
      [''147.96.46.52 - - [10/Oct/2023:12:55:47 +0200] "GET /y" 404 50 "-" "Firefox/117.0"'',
       ''crawler - - [15/Sep/2023:00:18:46 +0200] "GET /x" 200 100 "-" "Googlebot/2.1"'']] ''access.log'' =
     Inr {''147.96.46.52''}\<close>
proof -
  let ?h = \<open>''147.96.46.52 - - [10/Oct/2023:12:55:47 +0200] "GET /y" 404 50 "-" "Firefox/117.0"''\<close>
  let ?b = \<open>''crawler - - [15/Sep/2023:00:18:46 +0200] "GET /x" 200 100 "-" "Googlebot/2.1"''\<close>
  let ?fs = "[''access.log'' \<mapsto> [?h, ?b]]"
  have 1: "?fs ''access.log'' = Some ([?h] @ ?b # [])" by simp
  have 2: "is_bot (get_user_agent ?b)" by (simp add: bot_line_facts del: is_bot.simps(2))
  from ipaddreses_skips_bot_lines[of ?fs "''access.log''" "[?h]" ?b "[]", OF 1 2]
  have "ipaddreses ?fs ''access.log'' = ipaddreses (?fs(''access.log'' \<mapsto> [?h] @ [])) ''access.log''"
    by (rule conjunct1)
  also have "\<dots> = Inr {''147.96.46.52''}"
    by (simp add: ipaddreses_def human_line_facts del: is_bot.simps(2))
  finally show ?thesis using 2 by (simp add: bot_line_facts del: is_bot.simps(2))
qed

subsection \<open>The user agent\<close>

text \<open>
  C5, as the specification words it, fails: on a line of the log whose last quoted field
  is \<open>Go\<close>, which is neither \<open>-\<close> nor empty, \<open>get_user_agent\<close> returns None
  and not \<open>Go\<close>.
\<close>

theorem get_user_agent_short_agent_counterexample:
  \<open>spec_final_quoted ''147.96.46.52 - - [10/Oct/2023:12:55:47 +0200] "GET / HTTP/1.1" 200 5 "-" "Go"'' = Some ''Go'' \<and>
   ''Go'' \<noteq> ''-'' \<and> ''Go'' \<noteq> [] \<and>
   get_user_agent ''147.96.46.52 - - [10/Oct/2023:12:55:47 +0200] "GET / HTTP/1.1" 200 5 "-" "Go"'' = None \<and>
   get_user_agent ''147.96.46.52 - - [10/Oct/2023:12:55:47 +0200] "GET / HTTP/1.1" 200 5 "-" "Go"'' \<noteq> Some ''Go''\<close>
proof -
  have \<open>spec_final_quoted ''147.96.46.52 - - [10/Oct/2023:12:55:47 +0200] "GET / HTTP/1.1" 200 5 "-" "Go"'' = Some ''Go''\<close>
    by code_simp
  moreover have \<open>get_user_agent ''147.96.46.52 - - [10/Oct/2023:12:55:47 +0200] "GET / HTTP/1.1" 200 5 "-" "Go"'' = None\<close>
    by code_simp
  ultimately show ?thesis by simp
qed

text \<open>
  C5, amended. Take a line that ends with a quoted field \<open>ua\<close> standing after the closing
  quote of the field before it and a blank, as the user agent of a line of the log does,
  with or without a newline after it; \<open>ua\<close> holds no double quote and neither starts
  nor ends with a blank or a newline. Then \<open>ua\<close> is the content between the final pair
  of double quotes, and \<open>get_user_agent\<close> returns None when \<open>ua\<close> has at most two
  characters (so for \<open>-\<close> and for the empty field) and returns exactly \<open>ua\<close> otherwise.
\<close>

theorem get_user_agent_last_quoted_field:
  assumes "CHR 0x22 \<notin> set ua"
    "ua = [] \<or> (hd ua \<notin> {CHR '' '', CHR 0x0A} \<and> last ua \<notin> {CHR '' '', CHR 0x0A})"
    "e = [] \<or> e = [CHR 0x0A]"
  shows \<open>spec_final_quoted (pre @ ''" "'' @ ua @ ''"'' @ e) = Some ua \<and>
         get_user_agent (pre @ ''" "'' @ ua @ ''"'' @ e) = (if length ua \<le> 2 then None else Some ua) \<and>
         get_user_agent (pre @ ''" "-"'' @ e) = None \<and>
         get_user_agent (pre @ ''" ""'' @ e) = None\<close>
proof -
  have 1: \<open>spec_final_quoted (pre @ ''" "'' @ ua @ ''"'' @ e) = Some ua\<close>
    using assms(1,3) by (rule spec_final_quoted_tail)
  have 2: \<open>get_user_agent (pre @ ''" "'' @ ua @ ''"'' @ e) = (if length ua \<le> 2 then None else Some ua)\<close>
    using get_user_agent_quoted[OF assms, of pre] by auto
  have \<open>get_user_agent (pre @ ''" "'' @ ''-'' @ ''"'' @ e) = (if 2 < length ''-'' then Some ''-'' else None)\<close>
    by (rule get_user_agent_quoted) (use assms(3) in simp_all)
  then have 3: \<open>get_user_agent (pre @ ''" "-"'' @ e) = None\<close> by simp
  have \<open>get_user_agent (pre @ ''" "'' @ [] @ ''"'' @ e) = (if 2 < length ([] :: string) then Some [] else None)\<close>
    by (rule get_user_agent_quoted) (use assms(3) in simp_all)
  then have 4: \<open>get_user_agent (pre @ ''" ""'' @ e) = None\<close> by simp
  from 1 2 3 4 show ?thesis by blast
qed

theorem get_user_agent_last_quoted_field_witness:
  \<open>get_user_agent ''147.96.46.52 - - [10/Oct/2023:12:55:47 +0200] "GET /y" 404 50 "-" "Firefox/117.0"\<newline>'' = Some ''Firefox/117.0'' \<and>
   spec_final_quoted ''147.96.46.52 - - [10/Oct/2023:12:55:47 +0200] "GET /y" 404 50 "-" "Firefox/117.0"\<newline>'' = Some ''Firefox/117.0'' \<and>
   get_user_agent ''147.96.46.52 - - [10/Oct/2023:12:55:47 +0200] "GET /y" 404 50 "-" "-"\<newline>'' = None\<close>
proof -
  have a: \<open>CHR 0x22 \<notin> set ''Firefox/117.0''\<close> by simp
  have b: \<open>''Firefox/117.0'' = [] \<or> (hd ''Firefox/117.0'' \<notin> {CHR '' '', CHR 0x0A} \<and>
            last ''Firefox/117.0'' \<notin> {CHR '' '', CHR 0x0A})\<close> by simp
  have c: \<open>[CHR 0x0A] = [] \<or> [CHR 0x0A] = [CHR 0x0A]\<close> by simp
  from get_user_agent_last_quoted_field[OF a b c,
      of \<open>''147.96.46.52 - - [10/Oct/2023:12:55:47 +0200] "GET /y" 404 50 "-''\<close>]
  show ?thesis by simp
qed

text \<open>
  C10. On a line that holds no double quote followed by a blank, the split leaves the line
  whole: when the line, stripped of the double quotes, blanks and newlines at its two ends,
  has more than two characters, \<open>get_user_agent\<close> returns that stripped line and not None,
  and \<open>is_bot\<close> then looks for \<open>bot\<close> in the whole of it.
\<close>

theorem get_user_agent_without_delimiter:
  assumes \<open>\<not> (\<exists>pre post. line = pre @ ''" '' @ post)\<close>
    \<open>2 < length (strip_chars ''" \<newline>'' line)\<close>
  shows \<open>get_user_agent line = Some (strip_chars ''" \<newline>'' line) \<and>
         get_user_agent line \<noteq> None \<and>
         is_bot (get_user_agent line) =
           (\<exists>pre post. lower (strip_chars ''" \<newline>'' line) = pre @ ''bot'' @ post)\<close>
proof -
  have \<open>\<not> sublist ''" '' line\<close> using assms(1) by (simp add: sublist_def)
  then have 1: \<open>get_user_agent line = Some (strip_chars ''" \<newline>'' line)\<close>
    using assms(2) by (simp add: get_user_agent_unsplit)
  have "strip_chars ''\" \<newline>'' line \<noteq> []" using assms(2) by auto
  then have \<open>is_bot (Some (strip_chars ''" \<newline>'' line)) =
        (\<exists>pre post. lower (strip_chars ''" \<newline>'' line) = pre @ ''bot'' @ post)\<close>
    by (simp add: search_literal_sublist sublist_def)
  with 1 show ?thesis by simp
qed

theorem get_user_agent_without_delimiter_witness:
  \<open>get_user_agent ''147.96.46.52 - - [10/Oct/2023:12:55:47 +0200] "GET /robots.txt HTTP/1.1"\<newline>'' =
     Some ''147.96.46.52 - - [10/Oct/2023:12:55:47 +0200] "GET /robots.txt HTTP/1.1'' \<and>
   is_bot (get_user_agent ''147.96.46.52 - - [10/Oct/2023:12:55:47 +0200] "GET /robots.txt HTTP/1.1"\<newline>'') = True\<close>
proof -
  let ?l = \<open>''147.96.46.52 - - [10/Oct/2023:12:55:47 +0200] "GET /robots.txt HTTP/1.1"\<newline>''\<close>
  have n: \<open>\<not> search_literal ''" '' ?l\<close> by code_simp
  have a: \<open>\<not> (\<exists>pre post. ?l = pre @ ''" '' @ post)\<close>
    by (rule n[unfolded search_literal_sublist sublist_def])
  have s: \<open>strip_chars ''" \<newline>'' ?l = ''147.96.46.52 - - [10/Oct/2023:12:55:47 +0200] "GET /robots.txt HTTP/1.1''\<close>
    by code_simp
  have b: \<open>2 < length (strip_chars ''" \<newline>'' ?l)\<close> by (simp only: s) simp
  have c: \<open>is_bot (Some ''147.96.46.52 - - [10/Oct/2023:12:55:47 +0200] "GET /robots.txt HTTP/1.1'')\<close>
    by code_simp
  from get_user_agent_without_delimiter[OF a b]
  have \<open>get_user_agent ?l = Some (strip_chars ''" \<newline>'' ?l)\<close> by (rule conjunct1)
  with s c show ?thesis by (simp only: simp_thms)
qed

subsection \<open>The address of a line\<close>

text \<open>
  C6, as the specification words it, fails: the line \<open>1.2a\<close> begins with the
  dotted-numeric token \<open>1.2\<close>, and \<open>get_ipaddr\<close> raises on it, because the pattern ends
  with a word boundary and a letter follows the token.
\<close>

theorem get_ipaddr_word_boundary_counterexample:
  "''1.2a'' = ''1.2'' @ ''a'' \<and> spec_dotted_numeric ''1.2'' \<and> get_ipaddr ''1.2a'' = Inl AttributeError"
proof -
  have "spec_dotted_numeric ''1.2''" by code_simp
  moreover have "get_ipaddr ''1.2a'' = Inl AttributeError" by code_simp
  ultimately show ?thesis by simp
qed

text \<open>
  C6, amended. \<open>get_ipaddr\<close> succeeds exactly on the lines that begin with a
  dotted-numeric token (groups of digits with a dot after each, then a last group of
  digits) that ends at a word boundary: the line ends there, or goes on with a character
  that is not a letter, a digit or an underscore. It then returns such a token, a prefix of
  the line; on every other line it raises.
\<close>

theorem get_ipaddr_leading_token:
  "((\<exists>a. get_ipaddr line = Inr a) =
      (\<exists>p r. line = p @ r \<and> spec_dotted_numeric p \<and> (r = [] \<or> \<not> is_word (hd r)))) \<and>
   (\<forall>a. get_ipaddr line = Inr a \<longrightarrow>
      (\<exists>r. line = a @ r \<and> spec_dotted_numeric a \<and> (r = [] \<or> \<not> is_word (hd r)))) \<and>
   ((\<nexists>p r. line = p @ r \<and> spec_dotted_numeric p \<and> (r = [] \<or> \<not> is_word (hd r))) \<longrightarrow>
      get_ipaddr line = Inl AttributeError)"
proof (cases "ipaddr_re line")
  case Nil
  then have "set (ipaddr_re line) = {}" by simp
  then have "\<nexists>p r. line = p @ r \<and> spec_dotted_numeric p \<and> (r = [] \<or> \<not> is_word (hd r))"
    unfolding ipaddr_re_set by blast
  moreover have "get_ipaddr line = Inl AttributeError" using Nil by (simp add: get_ipaddr_def)
  ultimately show ?thesis by simp
next
  case (Cons x xs)
  then have r: "get_ipaddr line = Inr x" by (simp add: get_ipaddr_def)
  from Cons have "x \<in> set (ipaddr_re line)" by simp
  then have "\<exists>r. line = x @ r \<and> spec_dotted_numeric x \<and> (r = [] \<or> \<not> is_word (hd r))"
    unfolding ipaddr_re_set by blast
  with r show ?thesis by auto
qed

theorem get_ipaddr_leading_token_witness:
  \<open>get_ipaddr ''147.96.46.52 - - [10/Oct/2023:12:55:47 +0200] "GET /y" 404 50 "-" "Firefox/117.0"'' = Inr ''147.96.46.52'' \<and>
   (\<exists>r. ''147.96.46.52 - - [10/Oct/2023:12:55:47 +0200] "GET /y" 404 50 "-" "Firefox/117.0"'' = ''147.96.46.52'' @ r \<and>
        spec_dotted_numeric ''147.96.46.52'' \<and> (r = [] \<or> \<not> is_word (hd r)))\<close>
proof -
  let ?h = \<open>''147.96.46.52 - - [10/Oct/2023:12:55:47 +0200] "GET /y" 404 50 "-" "Firefox/117.0"''\<close>
  have g: "get_ipaddr ?h = Inr ''147.96.46.52''" by (rule human_line_facts)
  from get_ipaddr_leading_token[of ?h, THEN conjunct2, THEN conjunct1, rule_format, OF g] g
  show ?thesis by (intro conjI)
qed

subsection \<open>A closing bracket later in the line\<close>

text \<open>
  C3. The claim holds of the lines whose only closing bracket is the one of the timestamp,
  and the code breaks it on others: the pattern \<^verbatim>\<open>\[(.+)\]\<close> is greedy, so the text it
  hands to \<open>strptime\<close> runs to the last closing bracket of the line. On the line below, a
  well-formed line of the log whose user agent holds \<open>[en]\<close>, \<open>get_hour\<close> raises
  ValueError, where the timestamp of the line states the hour 12.
\<close>

theorem get_hour_later_bracket:
  \<open>re_search bracket_re ''147.96.46.52 - - [10/Oct/2023:12:55:47 +0200] "GET / HTTP/1.0" 200 5 "-" "Mozilla/4.7 [en] (WinNT; U)"'' =
     Some ''10/Oct/2023:12:55:47 +0200] "GET / HTTP/1.0" 200 5 "-" "Mozilla/4.7 [en'' \<and>
   get_hour ''147.96.46.52 - - [10/Oct/2023:12:55:47 +0200] "GET / HTTP/1.0" 200 5 "-" "Mozilla/4.7 [en] (WinNT; U)"'' =
     Inl ValueError \<and>
   get_hour ''147.96.46.52 - - [10/Oct/2023:12:55:47 +0200] "GET / HTTP/1.0" 200 5 "-" "Mozilla/4.7 (WinNT; U)"'' =
     Inr 12\<close>
proof -
  have 1: \<open>re_search bracket_re ''147.96.46.52 - - [10/Oct/2023:12:55:47 +0200] "GET / HTTP/1.0" 200 5 "-" "Mozilla/4.7 [en] (WinNT; U)"'' =
     Some ''10/Oct/2023:12:55:47 +0200] "GET / HTTP/1.0" 200 5 "-" "Mozilla/4.7 [en''\<close>
    by code_simp
  have 2: \<open>strptime ''10/Oct/2023:12:55:47 +0200] "GET / HTTP/1.0" 200 5 "-" "Mozilla/4.7 [en'' = Inl ValueError\<close>
    by code_simp
  have \<open>get_hour (''147.96.46.52 - - '' @ CHR ''['' # ''10/Oct/2023:12:55:47 +0200'' @ CHR '']'' #
      '' "GET / HTTP/1.0" 200 5 "-" "Mozilla/4.7 (WinNT; U)"'')
      = bind_err (strptime ''10/Oct/2023:12:55:47 +0200'') (\<lambda>dt. Inr (hour dt))\<close>
    by (rule get_hour_bracketed) (auto simp: not_newline_def)
  then have 3: \<open>get_hour ''147.96.46.52 - - [10/Oct/2023:12:55:47 +0200] "GET / HTTP/1.0" 200 5 "-" "Mozilla/4.7 (WinNT; U)"'' = Inr 12\<close>
    by (simp add: strptime_scenario_A)
  from 1 2 3 show ?thesis by (simp add: get_hour_def)
qed

end
